theory Spec2Isabelle
  imports Main "HOL-Library.Code_Target_Numeral"
begin

unbundle bit_operations_syntax

section \<open>Go runtime and standard-library behaviour used by the program\<close>

text \<open>
  A Go \<open>string\<close> is a sequence of bytes; it is modelled as a \<open>char list\<close> (an Isabelle
  \<open>char\<close> is one byte). A run-time panic ends the program and is the \<open>Inl\<close> side of a
  sum; an \<open>error\<close> value returned by a function is ordinary data.
\<close>

datatype numError = ErrSyntax | ErrRange

datatype panic =
    PanicNumError numError   \<comment> \<open>\<open>panic(err)\<close> in \<open>parseLeadingNum\<close>\<close>
  | PanicIndex               \<comment> \<open>index out of range\<close>
  | PanicSliceBounds         \<comment> \<open>slice bounds out of range\<close>

datatype error =
    MagicError               \<comment> \<open>\<open>fmt.Errorf("Magic does not start with ld.so.")\<close>\<close>
  | EOF                      \<comment> \<open>\<open>io.EOF\<close>: the stream ended before the first byte of a read\<close>
  | ErrUnexpectedEOF         \<comment> \<open>\<open>io.ErrUnexpectedEOF\<close>: the stream ended inside a read\<close>
  | ErrNotExist              \<comment> \<open>an error for which \<open>os.IsNotExist\<close> holds\<close>
  | ErrOpen                  \<comment> \<open>any other failure of \<open>os.Open\<close>\<close>
  | ErrFormat                \<comment> \<open>a failure of \<open>elf.NewFile\<close> or of \<open>ImportedLibraries\<close>\<close>

abbreviation byte :: "char \<Rightarrow> nat" where
  "byte c \<equiv> of_char c"

text \<open>
  \<open>unicode.IsDigit\<close>: for a rune up to U+00FF it is the test \<open>'0' \<le> r \<le> '9'\<close>; above
  that it looks the rune up in the standard library's table of decimal digits (category Nd).
  The table is not part of the program; it is the parameter \<open>nd\<close> throughout.
\<close>

definition unicode_IsDigit :: "(nat \<Rightarrow> bool) \<Rightarrow> nat \<Rightarrow> bool" where
  "unicode_IsDigit nd r = (if r \<le> 0xFF then 0x30 \<le> r \<and> r \<le> 0x39 else nd r)"

text \<open>
  Decoding of the first UTF-8 sequence of a string, as \<open>for i, r := range s\<close> does it:
  the rune and its width in bytes; a byte that starts no valid sequence is the rune U+FFFD
  of width 1.
\<close>

definition cont :: "char \<Rightarrow> bool" where
  "cont c = (0x80 \<le> byte c \<and> byte c \<le> 0xBF)"

definition RuneError :: nat where
  "RuneError = 0xFFFD"

fun decodeRune :: "string \<Rightarrow> nat \<times> nat" where
  "decodeRune [] = (RuneError, 0)"
| "decodeRune (c0 # cs) =
    (let b0 = byte c0 in
     if b0 < 0x80 then (b0, 1)
     else if 0xC2 \<le> b0 \<and> b0 \<le> 0xDF then
       (case cs of
          c1 # _ \<Rightarrow>
            if cont c1 then ((b0 mod 32) * 64 + byte c1 mod 64, 2) else (RuneError, 1)
        | _ \<Rightarrow> (RuneError, 1))
     else if 0xE0 \<le> b0 \<and> b0 \<le> 0xEF then
       (case cs of
          c1 # c2 # _ \<Rightarrow>
            if (if b0 = 0xE0 then 0xA0 else 0x80) \<le> byte c1
               \<and> byte c1 \<le> (if b0 = 0xED then 0x9F else 0xBF) \<and> cont c2
            then ((b0 mod 16) * 4096 + (byte c1 mod 64) * 64 + byte c2 mod 64, 3)
            else (RuneError, 1)
        | _ \<Rightarrow> (RuneError, 1))
     else if 0xF0 \<le> b0 \<and> b0 \<le> 0xF4 then
       (case cs of
          c1 # c2 # c3 # _ \<Rightarrow>
            if (if b0 = 0xF0 then 0x90 else 0x80) \<le> byte c1
               \<and> byte c1 \<le> (if b0 = 0xF4 then 0x8F else 0xBF) \<and> cont c2 \<and> cont c3
            then ((b0 mod 8) * 262144 + (byte c1 mod 64) * 4096
                    + (byte c2 mod 64) * 64 + byte c3 mod 64, 4)
            else (RuneError, 1)
        | _ \<Rightarrow> (RuneError, 1))
     else (RuneError, 1))"

text \<open>
  \<open>strings.IndexFunc(s, f)\<close>: the byte index of the first rune of \<open>s\<close> that satisfies
  \<open>f\<close>; Go's \<open>-1\<close> is \<open>None\<close>.
\<close>

function IndexFunc :: "string \<Rightarrow> (nat \<Rightarrow> bool) \<Rightarrow> nat option" where
  "IndexFunc s f =
    (if s = [] then None
     else if f (fst (decodeRune s)) then Some 0
     else map_option (\<lambda>k. snd (decodeRune s) + k) (IndexFunc (drop (snd (decodeRune s)) s) f))"
  by pat_completeness auto
termination
proof (relation "measure (\<lambda>(s, f). length s)")
  show "wf (measure (\<lambda>(s, f). length s))" by simp
next
  fix s :: string and f :: "nat \<Rightarrow> bool"
  assume "s \<noteq> []"
  then have "1 \<le> snd (decodeRune s)"
    by (cases s) (auto simp: Let_def split: list.splits)
  with \<open>s \<noteq> []\<close> show "((drop (snd (decodeRune s)) s, f), (s, f)) \<in> measure (\<lambda>(s, f). length s)"
    by simp
qed

declare IndexFunc.simps [simp del]

text \<open>
  \<open>strconv.ParseInt(s, 10, 32)\<close>. \<open>ParseUint\<close> reads the bytes from the left and stops at
  the first byte that is no digit (syntax error) or at the first prefix whose value
  exceeds \<open>2^32 - 1\<close> (range error, with the value \<open>2^32 - 1\<close>); \<open>ParseInt\<close> strips a sign
  and then checks the magnitude against \<open>2^31\<close>.
\<close>

definition isdigit :: "char \<Rightarrow> bool" where
  "isdigit c = (0x30 \<le> byte c \<and> byte c \<le> 0x39)"

fun ParseUint_loop :: "nat \<Rightarrow> string \<Rightarrow> numError + nat" where
  "ParseUint_loop n [] = Inr n"
| "ParseUint_loop n (c # cs) =
    (if \<not> isdigit c then Inl ErrSyntax
     else let n1 = n * 10 + (byte c - 0x30)
          in if n1 > 2 ^ 32 - 1 then Inl ErrRange else ParseUint_loop n1 cs)"

definition ParseUint :: "string \<Rightarrow> numError + nat" where
  "ParseUint s = (if s = [] then Inl ErrSyntax else ParseUint_loop 0 s)"

definition ParseInt :: "string \<Rightarrow> numError + int" where
  "ParseInt s =
    (if s = [] then Inl ErrSyntax
     else
       let neg = (hd s = CHR ''-'');
           s1 = (if hd s = CHR ''+'' \<or> neg then tl s else s)
       in case ParseUint s1 of
            Inl ErrSyntax \<Rightarrow> Inl ErrSyntax
          | r \<Rightarrow>
             (let un = (case r of Inr u \<Rightarrow> u | Inl _ \<Rightarrow> 2 ^ 32 - 1)
              in if \<not> neg \<and> un \<ge> 2 ^ 31 then Inl ErrRange
                 else if neg \<and> un > 2 ^ 31 then Inl ErrRange
                 else Inr (if neg then - int un else int un)))"

text \<open>
  \<open>strings.Split(s, ":")\<close> and \<open>bytes.IndexByte\<close> (Go's \<open>-1\<close> is \<open>None\<close>).
\<close>

fun Split :: "string \<Rightarrow> string list" where
  "Split [] = [[]]"
| "Split (c # cs) =
    (if c = CHR '':'' then [] # Split cs
     else (case Split cs of x # xs \<Rightarrow> (c # x) # xs | [] \<Rightarrow> [[c]]))"

definition IndexByte :: "string \<Rightarrow> char \<Rightarrow> nat option" where
  "IndexByte b c = (if c \<in> set b then Some (length (takeWhile (\<lambda>x. x \<noteq> c) b)) else None)"

text \<open>
  What the program asks of the operating system and of \<open>debug/elf\<close>: the value of
  \<open>LD_LIBRARY_PATH\<close>, \<open>filepath.Join\<close>, whether \<open>os.Stat\<close> succeeds, \<open>os.Open\<close> (an open file
  is its contents), and \<open>elf.NewFile\<close> followed by \<open>ImportedLibraries\<close> on an open file.
\<close>

record world =
  Getenv_LD_LIBRARY_PATH :: string
  filepath_Join :: "string \<Rightarrow> string \<Rightarrow> string"
  os_Stat :: "string \<Rightarrow> bool"
  os_Open :: "string \<Rightarrow> error + string"
  elf_ImportedLibraries :: "string \<Rightarrow> error + string list"

text \<open>
  \<open>binary.Read(r, binary.LittleEndian, ptr)\<close> for a value of \<open>n\<close> bytes, on a reader that
  holds the bytes \<open>r\<close>: the bytes read (or the error of \<open>io.ReadFull\<close>, in which case
  nothing is stored through \<open>ptr\<close>), and what is left of the reader.
\<close>

definition read :: "nat \<Rightarrow> string \<Rightarrow> (error + string) \<times> string" where
  "read n r =
    (if n \<le> length r then (Inr (take n r), drop n r)
     else (Inl (if r = [] then EOF else ErrUnexpectedEOF), []))"

definition uint32 :: "string \<Rightarrow> nat" where
  "uint32 bs = byte (bs ! 0) + byte (bs ! 1) * 2 ^ 8 + byte (bs ! 2) * 2 ^ 16 + byte (bs ! 3) * 2 ^ 24"

definition int32 :: "string \<Rightarrow> int" where
  "int32 bs = (let u = int (uint32 bs) in if u \<ge> 2 ^ 31 then u - 2 ^ 32 else u)"

section \<open>The comparator \<open>_dl_cache_libcmp\<close> (dlcache.go)\<close>

text \<open>
  The closure \<open>parseLeadingNum\<close> with its inner closure \<open>nonDigit\<close> and its local
  \<open>firstNonDigit\<close>: the string up to its first rune that is no Unicode digit (the whole
  string when there is none) is handed to \<open>ParseInt\<close>; an error of \<open>ParseInt\<close> is a panic.
\<close>

definition nonDigit :: "(nat \<Rightarrow> bool) \<Rightarrow> nat \<Rightarrow> bool" where
  "nonDigit nd r = (\<not> unicode_IsDigit nd r)"

definition firstNonDigit :: "(nat \<Rightarrow> bool) \<Rightarrow> string \<Rightarrow> nat" where
  "firstNonDigit nd s = (case IndexFunc s (nonDigit nd) of None \<Rightarrow> length s | Some k \<Rightarrow> k)"

definition parseLeadingNum :: "(nat \<Rightarrow> bool) \<Rightarrow> string \<Rightarrow> panic + int" where
  "parseLeadingNum nd s =
    (case ParseInt (take (firstNonDigit nd s) s) of
       Inl err \<Rightarrow> Inl (PanicNumError err)
     | Inr n \<Rightarrow> Inr n)"

text \<open>
  The loop \<open>for i := 0; i < l; i++\<close> of the comparator, from index \<open>i\<close> on, followed by
  the comparison of the lengths. \<open>l\<close> is the smaller of the two lengths, so both index
  reads are in range.
\<close>

function cmp_loop :: "(nat \<Rightarrow> bool) \<Rightarrow> string \<Rightarrow> string \<Rightarrow> nat \<Rightarrow> nat \<Rightarrow> panic + int" where
  "cmp_loop nd p1 p2 l i =
    (if i < l then
       (let p1c = p1 ! i; p2c = p2 ! i in
        if unicode_IsDigit nd (byte p1c) \<and> unicode_IsDigit nd (byte p2c) then
          (case parseLeadingNum nd (drop i p1) of
             Inl e \<Rightarrow> Inl e
           | Inr n1 \<Rightarrow>
              (case parseLeadingNum nd (drop i p2) of
                 Inl e \<Rightarrow> Inl e
               | Inr n2 \<Rightarrow>
                  if n1 < n2 then Inr (- 1)
                  else if n1 > n2 then Inr 1
                  else cmp_loop nd p1 p2 l (Suc i)))
        else if unicode_IsDigit nd (byte p1c) then Inr 1
        else if unicode_IsDigit nd (byte p2c) then Inr (- 1)
        else if byte p1c < byte p2c then Inr (- 1)
        else if byte p1c > byte p2c then Inr 1
        else cmp_loop nd p1 p2 l (Suc i))
     else if length p1 < length p2 then Inr (- 1)
     else if length p1 > length p2 then Inr 1
     else Inr 0)"
  by pat_completeness auto
termination
  by (relation "measure (\<lambda>(nd, p1, p2, l, i). l - i)") auto

declare cmp_loop.simps [simp del]

definition dl_cache_libcmp :: "(nat \<Rightarrow> bool) \<Rightarrow> string \<Rightarrow> string \<Rightarrow> panic + int" where
  "dl_cache_libcmp nd p1 p2 = cmp_loop nd p1 p2 (min (length p1) (length p2)) 0"

section \<open>The cache and \<open>Lookup\<close> (dlcache.go)\<close>

text \<open>
  \<open>fileEntry\<close> and \<open>DLCache\<close>. \<open>Flags\<close> is a Go
  \<open>int\<close> that holds a sign-extended \<open>int32\<close>; \<open>AND\<close> on \<open>int\<close> is two's complement.
\<close>

record fileEntry =
  Flags :: int
  Key :: string
  Value :: string

record DLCache =
  FileEntries :: "fileEntry list"

definition Is64 :: "fileEntry \<Rightarrow> bool" where
  "Is64 fe = (Flags fe AND 0x300 = 0x300)"

text \<open>
  The loop over the directories of \<open>LD_LIBRARY_PATH\<close>: the first joined path that
  \<open>os.Stat\<close> accepts.
\<close>

fun searchPaths :: "world \<Rightarrow> string list \<Rightarrow> string \<Rightarrow> string option" where
  "searchPaths w [] library = None"
| "searchPaths w (path # paths) library =
    (let maybePath = filepath_Join w path library
     in if os_Stat w maybePath then Some maybePath else searchPaths w paths library)"

text \<open>
  The bisection loop \<open>for lo < hi\<close>, from the state \<open>(lo, hi)\<close>: \<open>Inr (Some v)\<close> when the
  loop returns \<open>v\<close>, \<open>Inr None\<close> when it ends without a match. The \<open>switch\<close> has the cases
  \<open>0\<close>, \<open>-1\<close> and \<open>1\<close>; the comparator returns nothing else (lemma \<open>libcmp_range\<close>), so the
  last branch here is the case \<open>1\<close>.
\<close>

function bisect :: "(nat \<Rightarrow> bool) \<Rightarrow> fileEntry list \<Rightarrow> string \<Rightarrow> nat \<Rightarrow> nat \<Rightarrow> panic + string option" where
  "bisect nd es library lo hi =
    (if lo < hi then
       (let mid = (lo + hi) div 2 in
        if \<not> mid < length es then Inl PanicIndex
        else
          (case dl_cache_libcmp nd (Key (es ! mid)) library of
             Inl e \<Rightarrow> Inl e
           | Inr x \<Rightarrow>
              if x = 0 then
                (if Is64 (es ! mid) then Inr (Some (Value (es ! mid)))
                 else bisect nd es library lo mid)
              else if x = - 1 then bisect nd es library lo mid
              else bisect nd es library (mid + 1) hi))
     else Inr None)"
  by pat_completeness auto
termination
  by (relation "measure (\<lambda>(nd, es, library, lo, hi). hi - lo)") auto

declare bisect.simps [simp del]

text \<open>
  The logging loop \<open>for j := i - 10; j < i+10; j++\<close> reads \<open>dc.FileEntries[j].Key\<close>; the
  read panics when \<open>j\<close> is no index of the slice. What is printed is not modelled.
\<close>

fun logNeighbours :: "fileEntry list \<Rightarrow> int list \<Rightarrow> panic + unit" where
  "logNeighbours es [] = Inr ()"
| "logNeighbours es (j # js) =
    (if 0 \<le> j \<and> j < int (length es) then logNeighbours es js else Inl PanicIndex)"

text \<open>
  The loop \<open>for i, entry := range dc.FileEntries\<close> from index \<open>i\<close> on (\<open>rest\<close> are the
  entries from \<open>i\<close>), followed by the final \<open>return\<close> of the empty string and \<open>false\<close>.
\<close>

fun slowScan :: "fileEntry list \<Rightarrow> string \<Rightarrow> nat \<Rightarrow> fileEntry list \<Rightarrow> panic + string \<times> bool" where
  "slowScan es library i [] = Inr ([], False)"
| "slowScan es library i (entry # rest) =
    (if Key entry = library then
       (case logNeighbours es [int i - 10 .. int i + 10 - 1] of
          Inl e \<Rightarrow> Inl e
        | Inr _ \<Rightarrow> Inr (Value entry, True))
     else slowScan es library (Suc i) rest)"

definition Lookup :: "(nat \<Rightarrow> bool) \<Rightarrow> world \<Rightarrow> DLCache \<Rightarrow> string \<Rightarrow> panic + string \<times> bool" where
  "Lookup nd w dc library =
    (case (let ldPath = Getenv_LD_LIBRARY_PATH w
           in if ldPath \<noteq> [] then searchPaths w (Split ldPath) library else None) of
       Some maybePath \<Rightarrow> Inr (maybePath, True)
     | None \<Rightarrow>
        (case bisect nd (FileEntries dc) library 0 (length (FileEntries dc)) of
           Inl e \<Rightarrow> Inl e
         | Inr (Some v) \<Rightarrow> Inr (v, True)
         | Inr None \<Rightarrow> slowScan (FileEntries dc) library 0 (FileEntries dc)))"

section \<open>\<open>ReadDLCache\<close> (dlcache.go)\<close>

text \<open>
  \<open>_fileEntry\<close>, the record as it lies in the file: an \<open>int32\<close> and two \<open>uint32\<close> offsets,
  twelve bytes, little-endian.
\<close>

record fileEntry_raw =
  rawFlags :: int
  rawKey :: nat
  rawValue :: nat

definition cacheMagic :: string where
  "cacheMagic = ''ld.so-1.7.0'' @ [CHR 0x00]"

definition decode_fileEntry :: "string \<Rightarrow> fileEntry_raw" where
  "decode_fileEntry bs =
    \<lparr>rawFlags = int32 (take 4 bs), rawKey = uint32 (take 4 (drop 4 bs)),
     rawValue = uint32 (take 4 (drop 8 bs))\<rparr>"

text \<open>
  The loop \<open>for i := range fileEntries\<close> that reads \<open>nlibs\<close> records: the records and
  what is left of the reader, or the error of the first read that fails.
\<close>

fun readEntries :: "nat \<Rightarrow> string \<Rightarrow> error + fileEntry_raw list \<times> string" where
  "readEntries 0 r = Inr ([], r)"
| "readEntries (Suc n) r =
    (case read 12 r of
       (Inl err, _) \<Rightarrow> Inl err
     | (Inr bs, r1) \<Rightarrow>
        (case readEntries n r1 of
           Inl err \<Rightarrow> Inl err
         | Inr (es, r2) \<Rightarrow> Inr (decode_fileEntry bs # es, r2)))"

text \<open>
  The closure \<open>readString\<close>: \<open>stringTable[index:]\<close> panics when \<open>index\<close> exceeds the
  length; when no zero byte follows, \<open>l\<close> is \<open>-1\<close> and \<open>stringTable[index : index+l]\<close>
  panics.
\<close>

definition readString :: "string \<Rightarrow> nat \<Rightarrow> panic + string" where
  "readString stringTable index =
    (if index > length stringTable then Inl PanicSliceBounds
     else (case IndexByte (drop index stringTable) (CHR 0x00) of
             None \<Rightarrow> Inl PanicSliceBounds
           | Some l \<Rightarrow> Inr (take l (drop index stringTable))))"

text \<open>The loop \<open>for _, entry := range fileEntries\<close> that builds the cache entries.\<close>

fun convertEntries :: "string \<Rightarrow> fileEntry_raw list \<Rightarrow> panic + fileEntry list" where
  "convertEntries stringTable [] = Inr []"
| "convertEntries stringTable (entry # rest) =
    (case readString stringTable (rawKey entry) of
       Inl p \<Rightarrow> Inl p
     | Inr k \<Rightarrow>
        (case readString stringTable (rawValue entry) of
           Inl p \<Rightarrow> Inl p
         | Inr v \<Rightarrow>
            (case convertEntries stringTable rest of
               Inl p \<Rightarrow> Inl p
             | Inr es \<Rightarrow> Inr (\<lparr>Flags = rawFlags entry, Key = k, Value = v\<rparr> # es))))"

text \<open>
  \<open>ReadDLCache\<close> on a reader that holds the bytes \<open>r\<close>. The error of the first read,
  \<open>read(&magic)\<close>, is not looked at: after a failed read \<open>magic\<close> is still all zero.
  \<open>ioutil.ReadAll\<close> returns the rest of the reader.
\<close>

definition ReadDLCache :: "string \<Rightarrow> panic + (error + DLCache)" where
  "ReadDLCache r =
    (case read (length cacheMagic) r of (m, r1) \<Rightarrow>
       let magic = (case m of Inr bs \<Rightarrow> bs | Inl _ \<Rightarrow> replicate (length cacheMagic) (CHR 0x00))
       in if take 5 magic \<noteq> ''ld.so'' then Inr (Inl MagicError)
          else
            (case read 4 r1 of
               (Inl err, _) \<Rightarrow> Inr (Inl err)
             | (Inr bs, r2) \<Rightarrow>
                (let nlibs = uint32 bs in
                 case readEntries nlibs r2 of
                   Inl err \<Rightarrow> Inr (Inl err)
                 | Inr (fileEntries, stringTable) \<Rightarrow>
                    (case convertEntries stringTable fileEntries of
                       Inl p \<Rightarrow> Inl p
                     | Inr es \<Rightarrow> Inr (Inr \<lparr>FileEntries = es\<rparr>)))))"

section \<open>\<open>readImports\<close> and \<open>recursiveImports\<close> (main.go)\<close>

text \<open>
  \<open>readImports\<close>: when \<open>os.Open\<close> fails with a not-exist error the name is looked up in
  the cache and, if found, the path is opened instead; when it is not found, the
  not-exist error is returned.
\<close>

definition readImports :: "(nat \<Rightarrow> bool) \<Rightarrow> world \<Rightarrow> DLCache \<Rightarrow> string \<Rightarrow> panic + (error + string list)" where
  "readImports nd w dc filename =
    (case os_Open w filename of
       Inr fd \<Rightarrow> Inr (elf_ImportedLibraries w fd)
     | Inl err \<Rightarrow>
        if err = ErrNotExist then
          (case Lookup nd w dc filename of
             Inl p \<Rightarrow> Inl p
           | Inr (filename1, ok) \<Rightarrow>
              if ok then
                (case os_Open w filename1 of
                   Inr fd \<Rightarrow> Inr (elf_ImportedLibraries w fd)
                 | Inl err1 \<Rightarrow> Inr (Inl err1))
              else Inr (Inl err))
        else Inr (Inl err))"

text \<open>
  The two maps of \<open>recursiveImports\<close> that the closure \<open>visit\<close> captures, \<open>seen\<close> and
  \<open>imports\<close> (\<open>imports'\<close> here), as sets of their keys. The field \<open>reads\<close> is not in the
  program: it records, in order, the file names that were handed to \<open>readImports\<close>.
  The counter \<open>depth\<close> only serves a log line that is commented out and is left out.
\<close>

record state =
  seen :: "string set"
  imports' :: "string set"
  reads :: "string list"

text \<open>
  How a call of \<open>visit\<close> ends: it returns \<open>nil\<close>, it returns an error, or a panic
  unwinds it. \<open>visit\<close> calls itself once per level of the dependency graph; the first
  argument bounds the depth of these calls, and \<open>OutOfFuel\<close> says that the bound was hit.
  \<open>visitDeps\<close> is the loop \<open>for _, dep := range importedLibs\<close>.
\<close>

datatype status = Done | Failed error | Panicked panic | OutOfFuel

fun visit :: "nat \<Rightarrow> (nat \<Rightarrow> bool) \<Rightarrow> world \<Rightarrow> DLCache \<Rightarrow> state \<Rightarrow> string \<Rightarrow> state \<times> status"
  and visitDeps :: "nat \<Rightarrow> (nat \<Rightarrow> bool) \<Rightarrow> world \<Rightarrow> DLCache \<Rightarrow> state \<Rightarrow> string list \<Rightarrow> state \<times> status"
where
  "visit 0 nd w dc st filename = (st, OutOfFuel)"
| "visit (Suc n) nd w dc st filename =
    (if filename \<in> seen st then (st, Done)
     else
       (let st1 = st\<lparr>seen := insert filename (seen st), reads := reads st @ [filename]\<rparr> in
        case readImports nd w dc filename of
          Inl p \<Rightarrow> (st1, Panicked p)
        | Inr (Inl err) \<Rightarrow> (st1, Failed err)
        | Inr (Inr importedLibs) \<Rightarrow> visitDeps n nd w dc st1 importedLibs))"
| "visitDeps n nd w dc st [] = (st, Done)"
| "visitDeps n nd w dc st (dep # deps) =
    (let st1 = st\<lparr>imports' := insert dep (imports' st)\<rparr> in
     case visit n nd w dc st1 dep of
       (st2, Done) \<Rightarrow> visitDeps n nd w dc st2 deps
     | (st2, err) \<Rightarrow> (st2, err))"

text \<open>
  \<open>run\<close> is the call \<open>visit(filename)\<close> on the two empty maps. \<open>recursiveImports\<close> ends
  with \<open>return imports, visit(filename)\<close>: the map is returned together with the error
  (\<open>None\<close> is \<open>nil\<close>). \<open>None\<close> as the whole result says that the depth bound was hit.
\<close>

definition run :: "nat \<Rightarrow> (nat \<Rightarrow> bool) \<Rightarrow> world \<Rightarrow> DLCache \<Rightarrow> string \<Rightarrow> state \<times> status" where
  "run fuel nd w dc filename = visit fuel nd w dc \<lparr>seen = {}, imports' = {}, reads = []\<rparr> filename"

definition recursiveImports ::
  "nat \<Rightarrow> (nat \<Rightarrow> bool) \<Rightarrow> world \<Rightarrow> DLCache \<Rightarrow> string \<Rightarrow> (panic + string set \<times> error option) option" where
  "recursiveImports fuel nd w dc filename =
    (case run fuel nd w dc filename of
       (st, Done) \<Rightarrow> Some (Inr (imports' st, None))
     | (st, Failed err) \<Rightarrow> Some (Inr (imports' st, Some err))
     | (st, Panicked p) \<Rightarrow> Some (Inl p)
     | (st, OutOfFuel) \<Rightarrow> None)"

section \<open>Notions used to state the properties\<close>

text \<open>
  The value of a string of ASCII digits as a base-10 number, and the test whether a
  string starts with a UTF-8 encoded decimal digit beyond ASCII (which \<open>parseLeadingNum\<close>
  counts into the run, and which \<open>ParseInt\<close> then rejects).
\<close>

definition decval_from :: "nat \<Rightarrow> string \<Rightarrow> nat" where
  "decval_from n s = foldl (\<lambda>n c. n * 10 + (byte c - 0x30)) n s"

definition decval :: "string \<Rightarrow> nat" where
  "decval s = decval_from 0 s"

definition uniDigitNext :: "(nat \<Rightarrow> bool) \<Rightarrow> string \<Rightarrow> bool" where
  "uniDigitNext nd t = (t \<noteq> [] \<and> 0x80 \<le> byte (hd t) \<and> unicode_IsDigit nd (fst (decodeRune t)))"

text \<open>
  \<open>runval p i\<close> is the value of the maximal run of ASCII digits of \<open>p\<close> that starts at
  index \<open>i\<close>; \<open>run_ok\<close> says that this value fits a signed 32-bit integer and that the run
  is not continued by a decimal digit beyond ASCII.
\<close>

definition runval :: "string \<Rightarrow> nat \<Rightarrow> nat" where
  "runval p i = decval (takeWhile isdigit (drop i p))"

definition run_ok :: "(nat \<Rightarrow> bool) \<Rightarrow> string \<Rightarrow> nat \<Rightarrow> bool" where
  "run_ok nd p i = (runval p i < 2 ^ 31 \<and> \<not> uniDigitNext nd (dropWhile isdigit (drop i p)))"

text \<open>
  \<open>tie nd p1 p2 j\<close>: the body of the comparator's loop at index \<open>j\<close> neither returns nor
  panics. \<open>reached nd p1 p2 i\<close>: that holds at every index below \<open>i\<close>, so the loop gets
  as far as index \<open>i\<close>.
\<close>

definition tie :: "(nat \<Rightarrow> bool) \<Rightarrow> string \<Rightarrow> string \<Rightarrow> nat \<Rightarrow> bool" where
  "tie nd p1 p2 j =
    (if isdigit (p1 ! j) \<and> isdigit (p2 ! j)
     then run_ok nd p1 j \<and> run_ok nd p2 j \<and> runval p1 j = runval p2 j
     else \<not> isdigit (p1 ! j) \<and> \<not> isdigit (p2 ! j) \<and> p1 ! j = p2 ! j)"

definition reached :: "(nat \<Rightarrow> bool) \<Rightarrow> string \<Rightarrow> string \<Rightarrow> nat \<Rightarrow> bool" where
  "reached nd p1 p2 i = list_all (tie nd p1 p2) [0..<i]"

text \<open>
  The Arabic-Indic digits U+0660 to U+0669, ten of the decimal digits of Unicode beyond
  ASCII: a part of the table behind \<open>unicode.IsDigit\<close>, used for concrete inputs.
\<close>

definition arabic_indic :: "nat \<Rightarrow> bool" where
  "arabic_indic r = (0x660 \<le> r \<and> r \<le> 0x669)"

text \<open>
  A world for concrete inputs: no \<open>LD_LIBRARY_PATH\<close>, and no file can be opened.
\<close>

definition world0 :: world where
  "world0 = \<lparr>Getenv_LD_LIBRARY_PATH = [], filepath_Join = (\<lambda>dir name. dir @ ''/'' @ name),
     os_Stat = (\<lambda>path. False), os_Open = (\<lambda>path. Inl ErrNotExist),
     elf_ImportedLibraries = (\<lambda>fd. Inl ErrFormat)\<rparr>"

text \<open>
  Orders of a cache. \<open>cmp_ge nd a b\<close>: the comparator returns \<open>0\<close> or \<open>1\<close> on
  \<open>a\<close> and \<open>b\<close>. \<open>sorted_desc\<close>: every entry's key compares greater than or equal to
  the key of every later entry, which is the order that the bisection in \<open>Lookup\<close>
  follows (\<open>hi = mid\<close> when the middle key is smaller than the name);
  \<open>sorted_asc\<close> is the opposite order. \<open>wide_first es name\<close>: among the entries
  with the key \<open>name\<close>, no entry that is not 64-bit precedes a 64-bit one.
  \<open>first_match es library i\<close>: \<open>i\<close> is the first index whose key is \<open>library\<close>.
\<close>

definition cmp_ge :: "(nat \<Rightarrow> bool) \<Rightarrow> string \<Rightarrow> string \<Rightarrow> bool" where
  "cmp_ge nd a b = (dl_cache_libcmp nd a b = Inr 0 \<or> dl_cache_libcmp nd a b = Inr 1)"

definition sorted_desc :: "(nat \<Rightarrow> bool) \<Rightarrow> fileEntry list \<Rightarrow> bool" where
  "sorted_desc nd es = sorted_wrt (\<lambda>x y. cmp_ge nd (Key x) (Key y)) es"

definition sorted_asc :: "(nat \<Rightarrow> bool) \<Rightarrow> fileEntry list \<Rightarrow> bool" where
  "sorted_asc nd es = sorted_wrt (\<lambda>x y. cmp_ge nd (Key y) (Key x)) es"

definition wide_first :: "fileEntry list \<Rightarrow> string \<Rightarrow> bool" where
  "wide_first es name = sorted_wrt (\<lambda>x y. Key x = name \<and> Key y = name \<and> Is64 y \<longrightarrow> Is64 x) es"

definition first_match :: "fileEntry list \<Rightarrow> string \<Rightarrow> nat \<Rightarrow> bool" where
  "first_match es library i =
    (i < length es \<and> Key (es ! i) = library \<and> list_all (\<lambda>j. Key (es ! j) \<noteq> library) [0..<i])"

text \<open>
  Caches for concrete inputs: 21 entries in descending and in ascending order, in which
  the key \<open>libm.so.6\<close> has a 32-bit entry at index 10 and a 64-bit entry at index 11;
  two short caches in descending order; two 64-bit entries in ascending order; and a
  single 64-bit entry whose key has the version number \<open>2^31\<close>.
\<close>

definition cache_desc :: "fileEntry list" where
  "cache_desc =
     replicate 10 \<lparr>Flags = 0x303, Key = ''libz.so.1'', Value = ''/lib64/libz.so.1''\<rparr>
     @ [\<lparr>Flags = 0x3, Key = ''libm.so.6'', Value = ''/lib32/libm.so.6''\<rparr>,
        \<lparr>Flags = 0x303, Key = ''libm.so.6'', Value = ''/lib64/libm.so.6''\<rparr>]
     @ replicate 9 \<lparr>Flags = 0x303, Key = ''libc.so.6'', Value = ''/lib64/libc.so.6''\<rparr>"

definition cache_asc :: "fileEntry list" where
  "cache_asc =
     replicate 10 \<lparr>Flags = 0x303, Key = ''libc.so.6'', Value = ''/lib64/libc.so.6''\<rparr>
     @ [\<lparr>Flags = 0x3, Key = ''libm.so.6'', Value = ''/lib32/libm.so.6''\<rparr>,
        \<lparr>Flags = 0x303, Key = ''libm.so.6'', Value = ''/lib64/libm.so.6''\<rparr>]
     @ replicate 9 \<lparr>Flags = 0x303, Key = ''libz.so.1'', Value = ''/lib64/libz.so.1''\<rparr>"

definition cache_small :: "fileEntry list" where
  "cache_small =
     [\<lparr>Flags = 0x303, Key = ''libz.so.1'', Value = ''/lib64/libz.so.1''\<rparr>,
      \<lparr>Flags = 0x303, Key = ''libm.so.6'', Value = ''/lib64/libm.so.6''\<rparr>,
      \<lparr>Flags = 0x3, Key = ''libm.so.6'', Value = ''/lib32/libm.so.6''\<rparr>,
      \<lparr>Flags = 0x3, Key = ''libc.so.6'', Value = ''/lib32/libc.so.6''\<rparr>]"

definition cache_pair_asc :: "fileEntry list" where
  "cache_pair_asc =
     [\<lparr>Flags = 0x303, Key = ''libc.so.6'', Value = ''/lib64/libc.so.6''\<rparr>,
      \<lparr>Flags = 0x303, Key = ''libm.so.6'', Value = ''/lib64/libm.so.6''\<rparr>]"

definition cache_one :: "fileEntry list" where
  "cache_one =
     [\<lparr>Flags = 0x303, Key = ''libz.so.2147483648'', Value = ''/lib64/libz.so.2147483648''\<rparr>]"

definition cache_tiny :: "fileEntry list" where
  "cache_tiny =
     [\<lparr>Flags = 0x303, Key = ''libz.so.1'', Value = ''/lib64/libz.so.1''\<rparr>,
      \<lparr>Flags = 0x3, Key = ''libm.so.6'', Value = ''/lib32/libm.so.6''\<rparr>,
      \<lparr>Flags = 0x303, Key = ''libm.so.6'', Value = ''/lib64/libm.so.6''\<rparr>]"

text \<open>
  Byte streams for concrete inputs. \<open>le32 n\<close> are the four bytes of \<open>n\<close>, little-endian.
  \<open>cache_bad_offset\<close> is a cache file with one record whose key offset is \<open>0\<close> and whose
  value offset is \<open>10\<close>, the length of its string table. \<open>cache_short_header\<close> is a
  stream that ends inside the twelve bytes of the header.
\<close>

definition le32 :: "nat \<Rightarrow> string" where
  "le32 n = [char_of n, char_of (n div 2 ^ 8), char_of (n div 2 ^ 16), char_of (n div 2 ^ 24)]"

definition cache_bad_offset :: string where
  "cache_bad_offset =
     cacheMagic @ le32 1 @ (le32 0x303 @ le32 0 @ le32 10) @ (''libm.so.6'' @ [CHR 0x00])"

definition cache_short_header :: string where
  "cache_short_header = ''ld.so-1.7''"

text \<open>
  Dependency graphs for concrete inputs. \<open>graph_world g\<close> is a world in which exactly the
  files named in \<open>g\<close> can be opened and each declares the imports that \<open>g\<close> lists for
  it; there is no \<open>LD_LIBRARY_PATH\<close>. \<open>cycle\<close> is A\<rightarrow>B, B\<rightarrow>A; \<open>diamond\<close> is A\<rightarrow>B, A\<rightarrow>C,
  B\<rightarrow>D, C\<rightarrow>D; in \<open>broken\<close> the file A imports B and C, and C does not exist.
\<close>

definition graph_world :: "(string \<times> string list) list \<Rightarrow> world" where
  "graph_world g =
    \<lparr>Getenv_LD_LIBRARY_PATH = [], filepath_Join = (\<lambda>dir name. dir @ ''/'' @ name),
     os_Stat = (\<lambda>path. False),
     os_Open = (\<lambda>path. if map_of g path = None then Inl ErrNotExist else Inr path),
     elf_ImportedLibraries = (\<lambda>fd. case map_of g fd of Some deps \<Rightarrow> Inr deps | None \<Rightarrow> Inl ErrFormat)\<rparr>"

definition cycle :: "(string \<times> string list) list" where
  "cycle = [(''A'', [''B'']), (''B'', [''A''])]"

definition diamond :: "(string \<times> string list) list" where
  "diamond = [(''A'', [''B'', ''C'']), (''B'', [''D'']), (''C'', [''D'']), (''D'', [])]"

definition broken :: "(string \<times> string list) list" where
  "broken = [(''A'', [''B'', ''C'']), (''B'', [])]"

text \<open>
  \<open>okread\<close>: \<open>readImports\<close> returns a list of imports for the file. \<open>trace_ok new s\<close>
  relates the files \<open>new\<close> that a call of \<open>visit\<close> handed to \<open>readImports\<close> to the way
  \<open>s\<close> the call ended: if it ended with an error or a panic, that is the result of the
  last read, and all reads before it succeeded; otherwise all reads succeeded.
\<close>

definition okread :: "(nat \<Rightarrow> bool) \<Rightarrow> world \<Rightarrow> DLCache \<Rightarrow> string \<Rightarrow> bool" where
  "okread nd w dc g = (case readImports nd w dc g of Inr (Inr deps) \<Rightarrow> True | _ \<Rightarrow> False)"

definition trace_ok :: "(nat \<Rightarrow> bool) \<Rightarrow> world \<Rightarrow> DLCache \<Rightarrow> string list \<Rightarrow> status \<Rightarrow> bool" where
  "trace_ok nd w dc new s =
    (case s of
       Failed err \<Rightarrow> new \<noteq> [] \<and> readImports nd w dc (last new) = Inr (Inl err)
                      \<and> list_all (okread nd w dc) (butlast new)
     | Panicked p \<Rightarrow> new \<noteq> [] \<and> readImports nd w dc (last new) = Inl p
                      \<and> list_all (okread nd w dc) (butlast new)
     | _ \<Rightarrow> list_all (okread nd w dc) new)"

section \<open>Properties of the number parser\<close>

lemma decodeRune_width: "s \<noteq> [] \<Longrightarrow> 1 \<le> snd (decodeRune s)"
  by (cases s) (auto simp: Let_def split: list.splits)

lemma decodeRune_width_le: "snd (decodeRune s) \<le> length s"
  by (cases s) (auto simp: Let_def split: list.splits)

lemma decodeRune_ascii: "byte c < 0x80 \<Longrightarrow> decodeRune (c # cs) = (byte c, 1)"
  by simp

declare decodeRune.simps [simp del]

lemma IsDigit_byte: "unicode_IsDigit nd (byte c) = isdigit c"
proof -
  have "byte c mod 256 = (byte c :: nat)" by (rule of_char_mod_256)
  then have "byte c < (256::nat)" by (metis mod_less_divisor zero_less_numeral)
  then have "byte c \<le> (0xFF::nat)" by linarith
  then show ?thesis by (simp add: unicode_IsDigit_def isdigit_def)
qed

lemma decval_from_mono: "n \<le> decval_from n s"
  unfolding decval_from_def
proof (induction s arbitrary: n)
  case Nil then show ?case by simp
next
  case (Cons c s)
  have "n \<le> n * 10 + (byte c - 0x30)" by simp
  also have "\<dots> \<le> foldl (\<lambda>n c. n * 10 + (byte c - 0x30)) (n * 10 + (byte c - 0x30)) s" by (rule Cons.IH)
  finally show ?case by simp
qed

lemma ParseUint_loop_digits:
  "\<forall>c \<in> set ds. isdigit c \<Longrightarrow> n \<le> 2 ^ 32 - 1 \<Longrightarrow>
   ParseUint_loop n ds = (if decval_from n ds > 2 ^ 32 - 1 then Inl ErrRange else Inr (decval_from n ds))"
proof (induction ds arbitrary: n)
  case Nil then show ?case by (simp add: decval_from_def)
next
  case (Cons c ds)
  let ?n1 = "n * 10 + (byte c - 0x30)"
  have d: "decval_from n (c # ds) = decval_from ?n1 ds" by (simp add: decval_from_def)
  show ?case
  proof (cases "?n1 > 2 ^ 32 - 1")
    case True
    then have "decval_from ?n1 ds > 2 ^ 32 - 1" using decval_from_mono [of ?n1 ds] by linarith
    with True Cons.prems show ?thesis by (simp add: d Let_def)
  next
    case False
    with Cons show ?thesis by (simp add: d Let_def)
  qed
qed

lemma ParseUint_loop_nondigit:
  "\<forall>c \<in> set ds. isdigit c \<Longrightarrow> \<not> isdigit c \<Longrightarrow> \<exists>e. ParseUint_loop n (ds @ c # t) = Inl e"
  by (induction ds arbitrary: n) (auto simp: Let_def)

lemma isdigit_ascii: "isdigit c \<Longrightarrow> byte c < 0x80"
  by (simp add: isdigit_def)

lemma IndexFunc_digits_prefix:
  "\<forall>c \<in> set ds. isdigit c \<Longrightarrow>
   IndexFunc (ds @ t) (nonDigit nd) = map_option (\<lambda>k. length ds + k) (IndexFunc t (nonDigit nd))"
proof (induction ds)
  case Nil
  then show ?case by (simp add: option.map_ident)
next
  case (Cons c ds)
  then have c: "isdigit c" and ih: "IndexFunc (ds @ t) (nonDigit nd) = map_option (\<lambda>k. length ds + k) (IndexFunc t (nonDigit nd))"
    by simp_all
  have dr: "decodeRune (c # ds @ t) = (byte c, 1)"
    using isdigit_ascii [OF c] by (rule decodeRune_ascii)
  have "IndexFunc ((c # ds) @ t) (nonDigit nd) = map_option (\<lambda>k. 1 + k) (IndexFunc (ds @ t) (nonDigit nd))"
    using c by (subst IndexFunc.simps) (simp add: dr IsDigit_byte nonDigit_def)
  then show ?case
    by (simp add: ih option.map_comp comp_def)
qed

lemma firstNonDigit_prefix:
  "\<forall>c \<in> set ds. isdigit c \<Longrightarrow> firstNonDigit nd (ds @ t) = length ds + firstNonDigit nd t"
  by (simp add: firstNonDigit_def IndexFunc_digits_prefix split: option.splits)

lemma firstNonDigit_stop:
  assumes "\<not> uniDigitNext nd t" and "t = [] \<or> \<not> isdigit (hd t)"
  shows "firstNonDigit nd t = 0"
proof (cases t)
  case Nil
  then show ?thesis by (simp add: firstNonDigit_def IndexFunc.simps)
next
  case (Cons c t')
  with assms have nd: "\<not> isdigit c" by simp
  have "nonDigit nd (fst (decodeRune t))"
  proof (cases "byte c < 0x80")
    case True
    then show ?thesis using nd Cons by (simp add: IsDigit_byte decodeRune_ascii nonDigit_def)
  next
    case False
    then show ?thesis using assms(1) Cons by (simp add: uniDigitNext_def nonDigit_def)
  qed
  then show ?thesis using Cons by (simp add: firstNonDigit_def IndexFunc.simps)
qed

lemma IndexFunc_le: "IndexFunc s f = Some k \<Longrightarrow> k \<le> length s"
proof (induction s f arbitrary: k rule: IndexFunc.induct)
  case (1 s f)
  show ?case
  proof (cases "s = [] \<or> f (fst (decodeRune s))")
    case True
    then show ?thesis using "1.prems" by (auto simp: IndexFunc.simps [of s] split: if_splits)
  next
    case False
    then obtain k' where k': "IndexFunc (drop (snd (decodeRune s)) s) f = Some k'"
      and k: "k = snd (decodeRune s) + k'"
      using "1.prems" by (auto simp: IndexFunc.simps [of s] split: if_splits)
    from False have "k' \<le> length (drop (snd (decodeRune s)) s)"
      using "1.IH" k' by blast
    moreover have "snd (decodeRune s) \<le> length s"
      by (rule decodeRune_width_le)
    ultimately show ?thesis using k by simp
  qed
qed

lemma firstNonDigit_go:
  assumes "uniDigitNext nd t"
  shows "1 \<le> firstNonDigit nd t \<and> firstNonDigit nd t \<le> length t"
proof -
  from assms have ne: "t \<noteq> []" and d: "\<not> nonDigit nd (fst (decodeRune t))"
    by (simp_all add: uniDigitNext_def nonDigit_def)
  have w: "1 \<le> snd (decodeRune t)" using ne by (rule decodeRune_width)
  show ?thesis
  proof (cases "IndexFunc t (nonDigit nd)")
    case None
    then show ?thesis using ne by (cases t) (simp_all add: firstNonDigit_def)
  next
    case (Some k)
    then have "k \<le> length t" by (rule IndexFunc_le)
    moreover have "1 \<le> k" using Some ne d w by (auto simp: IndexFunc.simps [of t])
    ultimately show ?thesis using Some by (simp add: firstNonDigit_def)
  qed
qed

lemma ParseInt_digits:
  assumes "ds \<noteq> []" and "\<forall>c \<in> set ds. isdigit c"
  shows "ParseInt ds = (if decval ds \<ge> 2 ^ 31 then Inl ErrRange else Inr (int (decval ds)))"
proof -
  from assms have h: "isdigit (hd ds)" by (cases ds) simp_all
  have nosign: "hd ds \<noteq> CHR ''-''" "hd ds \<noteq> CHR ''+''"
    using h by (auto simp: isdigit_def)
  have pu: "ParseUint ds = (if decval ds > 2 ^ 32 - 1 then Inl ErrRange else Inr (decval ds))"
    using assms by (simp add: ParseUint_def ParseUint_loop_digits decval_def)
  show ?thesis
    using assms(1) nosign by (simp add: ParseInt_def pu Let_def)
qed

lemma ParseInt_nondigit:
  assumes "ds \<noteq> []" and "\<forall>c \<in> set ds. isdigit c" and "\<not> isdigit c"
  shows "\<exists>e. ParseInt (ds @ c # t) = Inl e"
proof -
  from assms have h: "isdigit (hd ds)" by (cases ds) simp_all
  have nosign: "hd (ds @ c # t) \<noteq> CHR ''-''" "hd (ds @ c # t) \<noteq> CHR ''+''"
    using h assms(1) by (auto simp: isdigit_def)
  obtain e where "ParseUint_loop 0 (ds @ c # t) = Inl e"
    using ParseUint_loop_nondigit [OF assms(2,3)] by blast
  then have "ParseUint (ds @ c # t) = Inl e" by (simp add: ParseUint_def)
  then show ?thesis
    using nosign by (cases e) (simp_all add: ParseInt_def Let_def)
qed

lemma parseLeadingNum_char:
  assumes "s \<noteq> []" and "isdigit (hd s)"
  shows "parseLeadingNum nd s =
     (if \<not> uniDigitNext nd (dropWhile isdigit s) \<and> decval (takeWhile isdigit s) < 2 ^ 31
      then Inr (int (decval (takeWhile isdigit s)))
      else Inl (PanicNumError (case ParseInt (take (firstNonDigit nd s) s) of Inl e \<Rightarrow> e)))"
proof -
  let ?ds = "takeWhile isdigit s" and ?t = "dropWhile isdigit s"
  have s: "s = ?ds @ ?t" by simp
  have ds: "\<forall>c \<in> set ?ds. isdigit c" by (auto dest: set_takeWhileD)
  have ne: "?ds \<noteq> []" using assms by (cases s) simp_all
  have t: "?t = [] \<or> \<not> isdigit (hd ?t)" by (metis hd_dropWhile)
  have fnd: "firstNonDigit nd s = length ?ds + firstNonDigit nd ?t"
    using firstNonDigit_prefix [OF ds, of nd ?t] by simp
  have pl: "parseLeadingNum nd s =
      (case ParseInt (take (firstNonDigit nd s) s) of Inl err \<Rightarrow> Inl (PanicNumError err) | Inr n \<Rightarrow> Inr n)"
    by (simp add: parseLeadingNum_def firstNonDigit_def)
  show ?thesis
  proof (cases "uniDigitNext nd ?t")
    case False
    then have "firstNonDigit nd ?t = 0" using t by (rule firstNonDigit_stop)
    then have "take (firstNonDigit nd s) s = ?ds"
      using fnd by (metis add.right_neutral append_eq_conv_conj s)
    then show ?thesis
      using False by (simp add: pl ParseInt_digits [OF ne ds] not_le)
  next
    case True
    then obtain c t' where c: "?t = c # t'" by (cases ?t) (auto simp: uniDigitNext_def)
    then have nc: "\<not> isdigit c" using t by simp
    from firstNonDigit_go [OF True] obtain m where m: "firstNonDigit nd ?t = Suc m"
      by (cases "firstNonDigit nd ?t") auto
    have "take (firstNonDigit nd s) s = take (length ?ds + Suc m) (?ds @ c # t')"
      using fnd m c s by metis
    also have "\<dots> = ?ds @ c # take m t'" by simp
    finally have tk: "take (firstNonDigit nd s) s = ?ds @ c # take m t'" .
    obtain e where "ParseInt (?ds @ c # take m t') = Inl e"
      using ParseInt_nondigit [OF ne ds nc] by blast
    then show ?thesis using True by (simp add: pl tk)
  qed
qed

section \<open>Properties of the comparator\<close>

lemma cmp_loop_end:
  "\<not> i < l \<Longrightarrow> cmp_loop nd p1 p2 l i =
     (if length p1 < length p2 then Inr (- 1) else if length p1 > length p2 then Inr 1 else Inr 0)"
  by (subst cmp_loop.simps) simp

lemma cmp_loop_digits:
  "i < l \<Longrightarrow> isdigit (p1 ! i) \<Longrightarrow> isdigit (p2 ! i) \<Longrightarrow>
   cmp_loop nd p1 p2 l i =
     (case parseLeadingNum nd (drop i p1) of
        Inl e \<Rightarrow> Inl e
      | Inr n1 \<Rightarrow>
         (case parseLeadingNum nd (drop i p2) of
            Inl e \<Rightarrow> Inl e
          | Inr n2 \<Rightarrow>
             if n1 < n2 then Inr (- 1) else if n1 > n2 then Inr 1
             else cmp_loop nd p1 p2 l (Suc i)))"
  by (subst cmp_loop.simps) (simp add: Let_def IsDigit_byte)

lemma cmp_loop_other:
  "i < l \<Longrightarrow> \<not> (isdigit (p1 ! i) \<and> isdigit (p2 ! i)) \<Longrightarrow>
   cmp_loop nd p1 p2 l i =
     (if isdigit (p1 ! i) then Inr 1
      else if isdigit (p2 ! i) then Inr (- 1)
      else if byte (p1 ! i) < byte (p2 ! i) then Inr (- 1)
      else if byte (p1 ! i) > byte (p2 ! i) then Inr 1
      else cmp_loop nd p1 p2 l (Suc i))"
  by (subst cmp_loop.simps) (auto simp add: Let_def IsDigit_byte)

lemma cmp_loop_swap:
  "cmp_loop nd p1 p2 l i = Inr r \<Longrightarrow> cmp_loop nd p2 p1 l i = Inr (- r)"
proof (induction k \<equiv> "l - i" arbitrary: i r)
  case 0
  then have "\<not> i < l" by simp
  then show ?case using "0.prems" by (auto simp: cmp_loop_end split: if_splits)
next
  case (Suc k)
  then have il: "i < l" and k: "k = l - Suc i" by simp_all
  note IH = Suc.hyps(1) [OF k]
  show ?case
  proof (cases "isdigit (p1 ! i) \<and> isdigit (p2 ! i)")
    case True
    then show ?thesis
      using Suc.prems IH il
      by (auto simp: cmp_loop_digits split: sum.splits if_splits)
  next
    case False
    then show ?thesis
      using Suc.prems IH il
      by (auto simp: cmp_loop_other split: if_splits)
  qed
qed

lemma cmp_loop_range:
  "cmp_loop nd p1 p2 l i = Inr r \<Longrightarrow> r = - 1 \<or> r = 0 \<or> r = 1"
proof (induction k \<equiv> "l - i" arbitrary: i)
  case 0
  then have "\<not> i < l" by simp
  then show ?case using "0.prems" by (auto simp: cmp_loop_end split: if_splits)
next
  case (Suc k)
  then have il: "i < l" and k: "k = l - Suc i" by simp_all
  note IH = Suc.hyps(1) [OF k]
  show ?case
  proof (cases "isdigit (p1 ! i) \<and> isdigit (p2 ! i)")
    case True
    then show ?thesis
      using Suc.prems IH il
      by (auto simp: cmp_loop_digits split: sum.splits if_splits)
  next
    case False
    then show ?thesis
      using Suc.prems IH il
      by (auto simp: cmp_loop_other split: if_splits)
  qed
qed

lemma parseLeadingNum_run:
  assumes "i < length p" and "isdigit (p ! i)"
  shows "parseLeadingNum nd (drop i p) =
     (if run_ok nd p i then Inr (int (runval p i))
      else Inl (PanicNumError (case ParseInt (take (firstNonDigit nd (drop i p)) (drop i p)) of Inl e \<Rightarrow> e)))"
proof -
  have "drop i p \<noteq> []" using assms(1) by simp
  moreover have "isdigit (hd (drop i p))" using assms by (simp add: hd_drop_conv_nth)
  ultimately show ?thesis
    by (simp add: parseLeadingNum_char run_ok_def runval_def conj_commute)
qed

lemma byte_eq_iff: "byte c = byte d \<longleftrightarrow> c = d"
  by (rule of_char_eq_iff)

lemma cmp_loop_tie:
  assumes "i < l" and "l \<le> length p1" and "l \<le> length p2" and "tie nd p1 p2 i"
  shows "cmp_loop nd p1 p2 l i = cmp_loop nd p1 p2 l (Suc i)"
proof (cases "isdigit (p1 ! i) \<and> isdigit (p2 ! i)")
  case True
  then show ?thesis
    using assms by (simp add: cmp_loop_digits parseLeadingNum_run tie_def)
next
  case False
  then show ?thesis
    using assms by (auto simp: cmp_loop_other tie_def split: if_splits)
qed

lemma cmp_loop_not_tie:
  assumes "i < l" and "l \<le> length p1" and "l \<le> length p2" and "\<not> tie nd p1 p2 i"
  shows "cmp_loop nd p1 p2 l i =
    (if isdigit (p1 ! i) \<and> isdigit (p2 ! i) then
       (if run_ok nd p1 i \<and> run_ok nd p2 i
        then (if runval p1 i < runval p2 i then Inr (- 1) else Inr 1)
        else Inl (PanicNumError
          (case ParseInt (take (firstNonDigit nd (drop i (if run_ok nd p1 i then p2 else p1)))
                               (drop i (if run_ok nd p1 i then p2 else p1))) of Inl e \<Rightarrow> e)))
     else if isdigit (p1 ! i) then Inr 1
     else if isdigit (p2 ! i) then Inr (- 1)
     else if byte (p1 ! i) < byte (p2 ! i) then Inr (- 1) else Inr 1)"
proof (cases "isdigit (p1 ! i) \<and> isdigit (p2 ! i)")
  case True
  then show ?thesis
    using assms by (auto simp add: cmp_loop_digits parseLeadingNum_run tie_def)
next
  case False
  then show ?thesis
    using assms by (auto simp add: cmp_loop_other tie_def byte_eq_iff)
qed

lemma reached_Suc: "reached nd p1 p2 (Suc i) \<longleftrightarrow> reached nd p1 p2 i \<and> tie nd p1 p2 i"
  by (simp add: reached_def)

lemma cmp_loop_reached:
  assumes "l \<le> length p1" and "l \<le> length p2"
  shows "i \<le> l \<Longrightarrow> reached nd p1 p2 i \<Longrightarrow> cmp_loop nd p1 p2 l 0 = cmp_loop nd p1 p2 l i"
proof (induction i)
  case 0
  show ?case by simp
next
  case (Suc i)
  then have "cmp_loop nd p1 p2 l 0 = cmp_loop nd p1 p2 l i"
    by (simp add: reached_Suc)
  also have "\<dots> = cmp_loop nd p1 p2 l (Suc i)"
    using Suc.prems assms by (intro cmp_loop_tie) (simp_all add: reached_Suc)
  finally show ?case .
qed

lemma decval_from_split: "decval_from n s = n * 10 ^ length s + decval s"
  unfolding decval_def decval_from_def
proof (induction s arbitrary: n)
  case Nil
  show ?case by simp
next
  case (Cons c s)
  show ?case
    by (simp add: Cons.IH [of "n * 10 + (byte c - 48)"] Cons.IH [of "byte c - 48"] algebra_simps)
qed

lemma decval_Cons: "decval (c # s) = (byte c - 0x30) * 10 ^ length s + decval s"
  using decval_from_split [of "byte c - 0x30" s] by (simp add: decval_def decval_from_def)

lemma runval_Cons:
  assumes "i < length p" and "isdigit (p ! i)"
  shows "runval p i = (byte (p ! i) - 0x30) * 10 ^ length (takeWhile isdigit (drop (Suc i) p))
           + decval (takeWhile isdigit (drop (Suc i) p))"
proof -
  have "drop i p = p ! i # drop (Suc i) p" using assms(1) by (simp add: Cons_nth_drop_Suc)
  then show ?thesis using assms(2) by (simp add: runval_def decval_Cons)
qed

lemma tie_same_char:
  assumes "i < length p1" and "i < length p2" and "tie nd p1 p2 i"
    and "drop (Suc i) p1 = drop (Suc i) p2"
  shows "p1 ! i = p2 ! i"
proof (cases "isdigit (p1 ! i) \<and> isdigit (p2 ! i)")
  case True
  then have "runval p1 i = runval p2 i" using assms(3) by (simp add: tie_def)
  then have "(byte (p1 ! i) - 0x30) * 10 ^ length (takeWhile isdigit (drop (Suc i) p2))
      = (byte (p2 ! i) - 0x30) * (10::nat) ^ length (takeWhile isdigit (drop (Suc i) p2))"
    using True assms by (simp add: runval_Cons)
  then have "byte (p1 ! i) - 0x30 = byte (p2 ! i) - (0x30::nat)" by simp
  then have "byte (p1 ! i) = byte (p2 ! i)" using True unfolding isdigit_def by linarith
  then show ?thesis by (simp add: byte_eq_iff)
next
  case False
  then show ?thesis using assms(3) by (simp add: tie_def)
qed

lemma cmp_loop_zero:
  assumes "l = min (length p1) (length p2)"
  shows "i \<le> l \<Longrightarrow> cmp_loop nd p1 p2 l i = Inr 0 \<Longrightarrow> drop i p1 = drop i p2"
proof (induction k \<equiv> "l - i" arbitrary: i)
  case 0
  then have "i = l" by simp
  then show ?case using "0.prems" assms by (auto simp: cmp_loop_end split: if_splits)
next
  case (Suc k)
  then have il: "i < l" and k: "k = l - Suc i" by simp_all
  have l1: "l \<le> length p1" and l2: "l \<le> length p2" using assms by simp_all
  have t: "tie nd p1 p2 i"
  proof (rule ccontr)
    assume "\<not> tie nd p1 p2 i"
    from cmp_loop_not_tie [OF il l1 l2 this] Suc.prems(2) show False
      by (auto split: if_splits)
  qed
  then have "cmp_loop nd p1 p2 l (Suc i) = Inr 0"
    using cmp_loop_tie [OF il l1 l2 t] Suc.prems(2) by simp
  then have d: "drop (Suc i) p1 = drop (Suc i) p2"
    using Suc.hyps(1) [OF k] il by simp
  have "p1 ! i = p2 ! i"
    using il l1 l2 t d by (intro tie_same_char [of i p1 p2 nd]) simp_all
  moreover have "drop i p1 = p1 ! i # drop (Suc i) p1" "drop i p2 = p2 ! i # drop (Suc i) p2"
    using il l1 l2 by (simp_all add: Cons_nth_drop_Suc)
  ultimately show ?case using d by simp
qed

lemma libcmp_zero_eq: "dl_cache_libcmp nd p1 p2 = Inr 0 \<Longrightarrow> p1 = p2"
  using cmp_loop_zero [of "min (length p1) (length p2)" p1 p2 0 nd]
  by (simp add: dl_cache_libcmp_def)

lemma libcmp_swap: "dl_cache_libcmp nd p1 p2 = Inr r \<Longrightarrow> dl_cache_libcmp nd p2 p1 = Inr (- r)"
  using cmp_loop_swap [of nd p1 p2 "min (length p1) (length p2)" 0 r]
  by (simp add: dl_cache_libcmp_def min.commute)

lemma libcmp_range: "dl_cache_libcmp nd p1 p2 = Inr r \<Longrightarrow> r = - 1 \<or> r = 0 \<or> r = 1"
  unfolding dl_cache_libcmp_def by (rule cmp_loop_range)

lemma libcmp_refl: "dl_cache_libcmp nd a a = Inr r \<Longrightarrow> r = 0"
  using libcmp_swap [of nd a a r] by simp

lemma reached_prefix:
  assumes "i \<le> length p1" and "i \<le> length p2" and "take i p1 = take i p2"
    and "\<forall>c \<in> set (take i p1). \<not> isdigit c"
  shows "reached nd p1 p2 i"
proof -
  have "tie nd p1 p2 j" if "j < i" for j
  proof -
    have e: "p1 ! j = p2 ! j"
      using that assms(3) by (metis nth_take)
    have "p1 ! j \<in> set (take i p1)"
      using that assms(1) by (metis in_set_conv_nth length_take min.absorb2 nth_take)
    then have "\<not> isdigit (p1 ! j)" using assms(4) by blast
    then show ?thesis using e by (simp add: tie_def)
  qed
  then show ?thesis by (simp add: reached_def list_all_iff)
qed

lemma libcmp_at:
  assumes "i < min (length p1) (length p2)" and "reached nd p1 p2 i"
  shows "dl_cache_libcmp nd p1 p2 = cmp_loop nd p1 p2 (min (length p1) (length p2)) i"
  using assms cmp_loop_reached [of "min (length p1) (length p2)" p1 p2 i nd]
  by (simp add: dl_cache_libcmp_def)

lemma libcmp_decided:
  assumes "i < min (length p1) (length p2)" and "reached nd p1 p2 i"
    and "isdigit (p1 ! i)" and "isdigit (p2 ! i)"
    and "run_ok nd p1 i" and "run_ok nd p2 i" and "runval p1 i \<noteq> runval p2 i"
  shows "dl_cache_libcmp nd p1 p2 = (if runval p1 i < runval p2 i then Inr (- 1) else Inr 1)"
proof -
  have nt: "\<not> tie nd p1 p2 i" using assms(3,4,7) by (simp add: tie_def)
  have "cmp_loop nd p1 p2 (min (length p1) (length p2)) i
      = (if runval p1 i < runval p2 i then Inr (- 1) else Inr 1)"
    using cmp_loop_not_tie [OF assms(1) _ _ nt] assms(3-6) by simp
  then show ?thesis using libcmp_at [OF assms(1,2)] by simp
qed

lemma all_less_list_all: "(\<forall>i<n. P i) \<longleftrightarrow> list_all P [0..<n]"
  by (auto simp: list_all_iff)

lemma ex_less_list_ex: "(\<exists>i<n. P i) \<longleftrightarrow> list_ex P [0..<n]"
  by (auto simp: list_ex_iff)

text \<open>
  Claim C4, as amended. Let \<open>i\<close> be the first position of the shared-length prefix
  at which both strings have a decimal digit, let the two strings agree before \<open>i\<close> (so
  the scan gets as far as \<open>i\<close>), and let both maximal digit runs that start at \<open>i\<close>
  be parseable (\<open>run_ok\<close>: the value fits a signed 32-bit integer, and no decimal digit
  beyond ASCII follows the run). Then the comparator compares the two runs as base-10
  integers, and an inequality of the two integers decides the result: \<open>-1\<close> when the
  first is smaller, \<open>1\<close> when it is greater. In particular
  \<open>cmp("a-1.so", "a-10.so") = -1\<close> and \<open>cmp("a-10.so", "a-1.so") = 1\<close>.
\<close>

theorem libcmp_numeric:
  "(i < min (length p1) (length p2) \<and> take i p1 = take i p2
      \<and> (\<forall>c \<in> set (take i p1). \<not> isdigit c)
      \<and> isdigit (p1 ! i) \<and> isdigit (p2 ! i) \<and> run_ok nd p1 i \<and> run_ok nd p2 i
    \<longrightarrow> (runval p1 i < runval p2 i \<longrightarrow> dl_cache_libcmp nd p1 p2 = Inr (- 1))
      \<and> (runval p1 i > runval p2 i \<longrightarrow> dl_cache_libcmp nd p1 p2 = Inr 1))
   \<and> dl_cache_libcmp nd ''a-1.so'' ''a-10.so'' = Inr (- 1)
   \<and> dl_cache_libcmp nd ''a-10.so'' ''a-1.so'' = Inr 1"
proof (intro conjI impI)
  assume a: "i < min (length p1) (length p2) \<and> take i p1 = take i p2
      \<and> (\<forall>c \<in> set (take i p1). \<not> isdigit c)
      \<and> isdigit (p1 ! i) \<and> isdigit (p2 ! i) \<and> run_ok nd p1 i \<and> run_ok nd p2 i"
  then have r: "reached nd p1 p2 i"
    by (intro reached_prefix) simp_all
  {
    assume "runval p1 i < runval p2 i"
    then show "dl_cache_libcmp nd p1 p2 = Inr (- 1)"
      using libcmp_decided [of i p1 p2 nd] a r by simp
  }
  {
    assume "runval p2 i < runval p1 i"
    then show "dl_cache_libcmp nd p1 p2 = Inr 1"
      using libcmp_decided [of i p1 p2 nd] a r by simp
  }
next
  show "dl_cache_libcmp nd ''a-1.so'' ''a-10.so'' = Inr (- 1)" by code_simp
next
  show "dl_cache_libcmp nd ''a-10.so'' ''a-1.so'' = Inr 1" by code_simp
qed

text \<open>
  The theorem at \<open>lib-7.so\<close> and \<open>lib-12.so\<close>, whose runs at index 4 are 7 and 12.
\<close>

theorem libcmp_numeric_witness:
  "runval ''lib-7.so'' 4 < runval ''lib-12.so'' 4
   \<and> dl_cache_libcmp arabic_indic ''lib-7.so'' ''lib-12.so'' = Inr (- 1)
   \<and> dl_cache_libcmp arabic_indic ''lib-12.so'' ''lib-7.so'' = Inr 1"
proof -
  have h1: "4 < min (length ''lib-7.so'') (length ''lib-12.so'') \<and> take 4 ''lib-7.so'' = take 4 ''lib-12.so''
      \<and> (\<forall>c \<in> set (take 4 ''lib-7.so''). \<not> isdigit c)
      \<and> isdigit (''lib-7.so'' ! 4) \<and> isdigit (''lib-12.so'' ! 4)
      \<and> run_ok arabic_indic ''lib-7.so'' 4 \<and> run_ok arabic_indic ''lib-12.so'' 4"
    by code_simp
  have h2: "4 < min (length ''lib-12.so'') (length ''lib-7.so'') \<and> take 4 ''lib-12.so'' = take 4 ''lib-7.so''
      \<and> (\<forall>c \<in> set (take 4 ''lib-12.so''). \<not> isdigit c)
      \<and> isdigit (''lib-12.so'' ! 4) \<and> isdigit (''lib-7.so'' ! 4)
      \<and> run_ok arabic_indic ''lib-12.so'' 4 \<and> run_ok arabic_indic ''lib-7.so'' 4"
    by code_simp
  have v: "runval ''lib-7.so'' 4 < runval ''lib-12.so'' 4" by code_simp
  show ?thesis
    using libcmp_numeric [of 4 "''lib-7.so''" "''lib-12.so''" arabic_indic]
      libcmp_numeric [of 4 "''lib-12.so''" "''lib-7.so''" arabic_indic] h1 h2 v
    by blast
qed

text \<open>
  Without the conditions the statement fails. In \<open>b1\<close> and \<open>a2\<close> the first position
  with two digits is 1 and the runs there are 1 and 2, yet the result is \<open>1\<close>: the scan
  returned at index 0. In \<open>2147483648\<close> and \<open>1\<close> the runs at index 0 differ, yet the
  comparator panics. So it does on the bytes \<open>37 D9 A3\<close> (the digit \<open>7\<close> followed by
  U+0663) and \<open>9\<close>, whose runs at index 0 are 7 and 9.
\<close>

theorem libcmp_numeric_counterexample:
  "\<not> isdigit (''b1'' ! 0) \<and> isdigit (''b1'' ! 1) \<and> isdigit (''a2'' ! 1)
   \<and> runval ''b1'' 1 < runval ''a2'' 1
   \<and> dl_cache_libcmp arabic_indic ''b1'' ''a2'' = Inr 1
   \<and> isdigit (''2147483648'' ! 0) \<and> isdigit (''1'' ! 0)
   \<and> runval ''1'' 0 < runval ''2147483648'' 0
   \<and> dl_cache_libcmp arabic_indic ''2147483648'' ''1'' = Inl (PanicNumError ErrRange)
   \<and> isdigit ([CHR ''7'', CHR 0xD9, CHR 0xA3] ! 0) \<and> isdigit (''9'' ! 0)
   \<and> runval [CHR ''7'', CHR 0xD9, CHR 0xA3] 0 < runval ''9'' 0
   \<and> dl_cache_libcmp arabic_indic [CHR ''7'', CHR 0xD9, CHR 0xA3] ''9''
        = Inl (PanicNumError ErrSyntax)"
  by code_simp

text \<open>
  Claim C5, as amended. Whenever \<open>cmp(a, b)\<close> returns a value \<open>r\<close>, \<open>cmp(b, a)\<close>
  returns \<open>-r\<close>; whenever \<open>cmp(a, b)\<close> panics, so does \<open>cmp(b, a)\<close>; and whenever
  \<open>cmp(a, a)\<close> returns, it returns \<open>0\<close>.
\<close>

theorem libcmp_antisymmetric:
  "(\<forall>r. dl_cache_libcmp nd a b = Inr r \<longrightarrow> dl_cache_libcmp nd b a = Inr (- r))
   \<and> (\<forall>e. dl_cache_libcmp nd a b = Inl e \<longrightarrow> (\<exists>e'. dl_cache_libcmp nd b a = Inl e'))
   \<and> (\<forall>r. dl_cache_libcmp nd a a = Inr r \<longrightarrow> r = 0)"
proof (intro conjI allI impI)
  fix r assume "dl_cache_libcmp nd a b = Inr r"
  then show "dl_cache_libcmp nd b a = Inr (- r)" by (rule libcmp_swap)
next
  fix e assume e: "dl_cache_libcmp nd a b = Inl e"
  show "\<exists>e'. dl_cache_libcmp nd b a = Inl e'"
  proof (cases "dl_cache_libcmp nd b a")
    case (Inl e')
    then show ?thesis by blast
  next
    case (Inr r)
    then have "dl_cache_libcmp nd a b = Inr (- r)" by (rule libcmp_swap)
    with e show ?thesis by simp
  qed
next
  fix r assume "dl_cache_libcmp nd a a = Inr r"
  then show "r = 0" by (rule libcmp_refl)
qed

text \<open>
  The theorem at a pair that is compared numerically, at equal strings, and at a pair on
  which the comparator panics.
\<close>

theorem libcmp_antisymmetric_witness:
  "dl_cache_libcmp arabic_indic ''a-1.so'' ''a-10.so'' = Inr (- 1)
   \<and> dl_cache_libcmp arabic_indic ''a-10.so'' ''a-1.so'' = Inr 1
   \<and> dl_cache_libcmp arabic_indic ''a-10.so'' ''a-10.so'' = Inr 0
   \<and> dl_cache_libcmp arabic_indic ''2147483648'' ''1'' = Inl (PanicNumError ErrRange)
   \<and> (\<exists>e. dl_cache_libcmp arabic_indic ''1'' ''2147483648'' = Inl e)"
proof -
  have 1: "dl_cache_libcmp arabic_indic ''a-1.so'' ''a-10.so'' = Inr (- 1)" by code_simp
  have 2: "dl_cache_libcmp arabic_indic ''a-10.so'' ''a-10.so'' = Inr 0" by code_simp
  have 3: "dl_cache_libcmp arabic_indic ''2147483648'' ''1'' = Inl (PanicNumError ErrRange)" by code_simp
  show ?thesis
    using libcmp_antisymmetric [of arabic_indic "''a-1.so''" "''a-10.so''"]
      libcmp_antisymmetric [of arabic_indic "''2147483648''" "''1''"] 1 2 3
    by simp
qed

text \<open>
  The comparator does not return \<open>0\<close> on every pair of equal strings: on \<open>2147483648\<close>
  it panics.
\<close>

theorem libcmp_antisymmetric_counterexample:
  "dl_cache_libcmp arabic_indic ''2147483648'' ''2147483648'' = Inl (PanicNumError ErrRange)"
  by code_simp

lemma cmp_loop_total:
  assumes l: "l = min (length p1) (length p2)"
    and ok: "\<forall>j<l. reached nd p1 p2 j \<and> isdigit (p1 ! j) \<and> isdigit (p2 ! j)
                \<longrightarrow> run_ok nd p1 j \<and> run_ok nd p2 j"
  shows "i \<le> l \<Longrightarrow> reached nd p1 p2 i \<Longrightarrow> cmp_loop nd p1 p2 l i \<in> {Inr (- 1), Inr 0, Inr 1}"
proof (induction k \<equiv> "l - i" arbitrary: i)
  case 0
  then have "\<not> i < l" by simp
  then show ?case by (simp add: cmp_loop_end)
next
  case (Suc k)
  then have il: "i < l" and k: "k = l - Suc i" by simp_all
  have l1: "l \<le> length p1" and l2: "l \<le> length p2" using l by simp_all
  show ?case
  proof (cases "tie nd p1 p2 i")
    case True
    then have "reached nd p1 p2 (Suc i)" using Suc.prems(2) by (simp add: reached_Suc)
    then have "cmp_loop nd p1 p2 l (Suc i) \<in> {Inr (- 1), Inr 0, Inr 1}"
      using Suc.hyps(1) [OF k] il by simp
    then show ?thesis using cmp_loop_tie [OF il l1 l2 True] by simp
  next
    case False
    have "isdigit (p1 ! i) \<and> isdigit (p2 ! i) \<longrightarrow> run_ok nd p1 i \<and> run_ok nd p2 i"
      using ok il Suc.prems(2) by blast
    then show ?thesis using cmp_loop_not_tie [OF il l1 l2 False] by auto
  qed
qed

lemma libcmp_panics:
  assumes "i < min (length p1) (length p2)" and "reached nd p1 p2 i"
    and "isdigit (p1 ! i)" and "isdigit (p2 ! i)" and "\<not> (run_ok nd p1 i \<and> run_ok nd p2 i)"
  shows "\<exists>e. dl_cache_libcmp nd p1 p2 = Inl (PanicNumError e)"
proof -
  have nt: "\<not> tie nd p1 p2 i" using assms(3-5) by (auto simp: tie_def)
  show ?thesis
    using cmp_loop_not_tie [OF assms(1) _ _ nt] assms(3-5) libcmp_at [OF assms(1,2)]
    by auto
qed

lemma bisect_panics:
  assumes "lo < hi" and "(lo + hi) div 2 < length es"
    and "dl_cache_libcmp nd (Key (es ! ((lo + hi) div 2))) library = Inl e"
  shows "bisect nd es library lo hi = Inl e"
  using assms by (subst bisect.simps) (simp add: Let_def)

lemma Lookup_noenv:
  "Getenv_LD_LIBRARY_PATH w = [] \<Longrightarrow>
   Lookup nd w dc library =
     (case bisect nd (FileEntries dc) library 0 (length (FileEntries dc)) of
        Inl e \<Rightarrow> Inl e
      | Inr (Some v) \<Rightarrow> Inr (v, True)
      | Inr None \<Rightarrow> slowScan (FileEntries dc) library 0 (FileEntries dc))"
  by (simp add: Lookup_def)

text \<open>
  Claim C10, as amended. If every pair of maximal digit runs that the comparison reaches
  is parseable (\<open>run_ok\<close>: the value fits a signed 32-bit integer, and no decimal digit
  beyond ASCII follows the run), the comparator returns \<open>-1\<close>, \<open>0\<close> or \<open>1\<close>. If it
  reaches a pair of runs one of which is not parseable, it panics with the error of
  \<open>ParseInt\<close>. A bisection step of \<open>Lookup\<close> whose comparison panics makes the loop
  panic, and so does \<open>Lookup\<close> (no \<open>LD_LIBRARY_PATH\<close>) when its first comparison, with
  the middle key, panics.
\<close>

theorem libcmp_total:
  "((\<forall>i < min (length p1) (length p2).
        reached nd p1 p2 i \<and> isdigit (p1 ! i) \<and> isdigit (p2 ! i)
          \<longrightarrow> run_ok nd p1 i \<and> run_ok nd p2 i)
      \<longrightarrow> dl_cache_libcmp nd p1 p2 \<in> {Inr (- 1), Inr 0, Inr 1})
   \<and> ((\<exists>i < min (length p1) (length p2).
        reached nd p1 p2 i \<and> isdigit (p1 ! i) \<and> isdigit (p2 ! i)
          \<and> \<not> (run_ok nd p1 i \<and> run_ok nd p2 i))
      \<longrightarrow> (\<exists>e. dl_cache_libcmp nd p1 p2 = Inl (PanicNumError e)))
   \<and> (lo < hi \<and> (lo + hi) div 2 < length es
        \<and> dl_cache_libcmp nd (Key (es ! ((lo + hi) div 2))) library = Inl e
      \<longrightarrow> bisect nd es library lo hi = Inl e)
   \<and> (Getenv_LD_LIBRARY_PATH w = [] \<and> es \<noteq> []
        \<and> dl_cache_libcmp nd (Key (es ! (length es div 2))) library = Inl e
      \<longrightarrow> Lookup nd w \<lparr>FileEntries = es\<rparr> library = Inl e)"
proof (intro conjI impI)
  assume ok: "\<forall>i < min (length p1) (length p2).
        reached nd p1 p2 i \<and> isdigit (p1 ! i) \<and> isdigit (p2 ! i)
          \<longrightarrow> run_ok nd p1 i \<and> run_ok nd p2 i"
  have "reached nd p1 p2 0" by (simp add: reached_def)
  then show "dl_cache_libcmp nd p1 p2 \<in> {Inr (- 1), Inr 0, Inr 1}"
    unfolding dl_cache_libcmp_def using cmp_loop_total [OF refl ok, of 0] by simp
next
  assume "\<exists>i < min (length p1) (length p2).
        reached nd p1 p2 i \<and> isdigit (p1 ! i) \<and> isdigit (p2 ! i)
          \<and> \<not> (run_ok nd p1 i \<and> run_ok nd p2 i)"
  then show "\<exists>e. dl_cache_libcmp nd p1 p2 = Inl (PanicNumError e)"
    using libcmp_panics by blast
next
  assume "lo < hi \<and> (lo + hi) div 2 < length es
        \<and> dl_cache_libcmp nd (Key (es ! ((lo + hi) div 2))) library = Inl e"
  then show "bisect nd es library lo hi = Inl e"
    using bisect_panics by blast
next
  assume a: "Getenv_LD_LIBRARY_PATH w = [] \<and> es \<noteq> []
        \<and> dl_cache_libcmp nd (Key (es ! (length es div 2))) library = Inl e"
  then have "bisect nd es library 0 (length es) = Inl e"
    by (intro bisect_panics) simp_all
  then show "Lookup nd w \<lparr>FileEntries = es\<rparr> library = Inl e"
    using a by (simp add: Lookup_noenv)
qed

text \<open>
  The theorem at a pair of parseable runs, at a key whose version number is \<open>2^31\<close>, and
  at a cache that holds this key.
\<close>

theorem libcmp_total_witness:
  "dl_cache_libcmp arabic_indic ''a-10.so'' ''a-1.so'' \<in> {Inr (- 1), Inr 0, Inr 1}
   \<and> (\<exists>e. dl_cache_libcmp arabic_indic ''libz.so.2147483648'' ''libz.so.1'' = Inl (PanicNumError e))
   \<and> bisect arabic_indic [\<lparr>Flags = 0x303, Key = ''libz.so.2147483648'', Value = ''/lib/libz.so.2147483648''\<rparr>]
        ''libz.so.1'' 0 1 = Inl (PanicNumError ErrRange)
   \<and> Lookup arabic_indic world0
        \<lparr>FileEntries = [\<lparr>Flags = 0x303, Key = ''libz.so.2147483648'', Value = ''/lib/libz.so.2147483648''\<rparr>]\<rparr>
        ''libz.so.1'' = Inl (PanicNumError ErrRange)"
proof -
  let ?es = "[\<lparr>Flags = 0x303, Key = ''libz.so.2147483648'', Value = ''/lib/libz.so.2147483648''\<rparr>]"
  have 1: "\<forall>i < min (length ''a-10.so'') (length ''a-1.so'').
        reached arabic_indic ''a-10.so'' ''a-1.so'' i \<and> isdigit (''a-10.so'' ! i) \<and> isdigit (''a-1.so'' ! i)
          \<longrightarrow> run_ok arabic_indic ''a-10.so'' i \<and> run_ok arabic_indic ''a-1.so'' i"
    unfolding all_less_list_all by code_simp
  have 2: "\<exists>i < min (length ''libz.so.2147483648'') (length ''libz.so.1'').
        reached arabic_indic ''libz.so.2147483648'' ''libz.so.1'' i
          \<and> isdigit (''libz.so.2147483648'' ! i) \<and> isdigit (''libz.so.1'' ! i)
          \<and> \<not> (run_ok arabic_indic ''libz.so.2147483648'' i \<and> run_ok arabic_indic ''libz.so.1'' i)"
    unfolding ex_less_list_ex by code_simp
  have 3: "(0::nat) < 1 \<and> (0 + 1) div 2 < length ?es
        \<and> dl_cache_libcmp arabic_indic (Key (?es ! ((0 + 1) div 2))) ''libz.so.1'' = Inl (PanicNumError ErrRange)"
    by code_simp
  have 4: "Getenv_LD_LIBRARY_PATH world0 = [] \<and> ?es \<noteq> []
        \<and> dl_cache_libcmp arabic_indic (Key (?es ! (length ?es div 2))) ''libz.so.1'' = Inl (PanicNumError ErrRange)"
    by code_simp
  note T = libcmp_total [of "''libz.so.2147483648''" "''libz.so.1''" arabic_indic 0 1 ?es
      "''libz.so.1''" "PanicNumError ErrRange" world0]
  have c1: "dl_cache_libcmp arabic_indic ''a-10.so'' ''a-1.so'' \<in> {Inr (- 1), Inr 0, Inr 1}"
    by (rule libcmp_total [of "''a-10.so''" "''a-1.so''" arabic_indic, THEN conjunct1, THEN mp, OF 1])
  have c2: "\<exists>e. dl_cache_libcmp arabic_indic ''libz.so.2147483648'' ''libz.so.1'' = Inl (PanicNumError e)"
    by (rule T [THEN conjunct2, THEN conjunct1, THEN mp, OF 2])
  have c3: "bisect arabic_indic ?es ''libz.so.1'' 0 1 = Inl (PanicNumError ErrRange)"
    by (rule T [THEN conjunct2, THEN conjunct2, THEN conjunct1, THEN mp, OF 3])
  have c4: "Lookup arabic_indic world0 \<lparr>FileEntries = ?es\<rparr> ''libz.so.1'' = Inl (PanicNumError ErrRange)"
    by (rule T [THEN conjunct2, THEN conjunct2, THEN conjunct2, THEN mp, OF 4])
  from c1 c2 c3 c4 show ?thesis by (intro conjI)
qed

text \<open>
  A digit run within range is not enough. The string of the bytes \<open>31 D9 A3\<close> is the
  digit \<open>1\<close> followed by U+0663: its only run of ASCII digits has the value 1, and the
  comparator panics with a syntax error.
\<close>

theorem libcmp_total_counterexample:
  "\<not> isdigit (CHR 0xD9) \<and> runval [CHR ''1'', CHR 0xD9, CHR 0xA3] 0 = 1
   \<and> dl_cache_libcmp arabic_indic [CHR ''1'', CHR 0xD9, CHR 0xA3] [CHR ''1'', CHR 0xD9, CHR 0xA3]
       = Inl (PanicNumError ErrSyntax)"
  by code_simp

section \<open>Properties of \<open>Lookup\<close>\<close>

lemma logNeighbours_iff:
  "logNeighbours es js =
     (if \<forall>j \<in> set js. 0 \<le> j \<and> j < int (length es) then Inr () else Inl PanicIndex)"
  by (induction js) auto

lemma logNeighbours_window:
  "logNeighbours es [int i - 10 .. int i + 10 - 1] =
     (if i < 10 \<or> i + 10 > length es then Inl PanicIndex else Inr ())"
proof -
  have "(\<forall>j \<in> set [int i - 10 .. int i + 10 - 1]. 0 \<le> j \<and> j < int (length es))
      \<longleftrightarrow> \<not> (i < 10 \<or> i + 10 > length es)"
  proof
    assume a: "\<forall>j \<in> set [int i - 10 .. int i + 10 - 1]. 0 \<le> j \<and> j < int (length es)"
    have "int i - 10 \<in> set [int i - 10 .. int i + 10 - 1]" by simp
    moreover have "int i + 10 - 1 \<in> set [int i - 10 .. int i + 10 - 1]" by simp
    ultimately have "0 \<le> int i - 10" and "int i + 10 - 1 < int (length es)" using a by blast+
    then show "\<not> (i < 10 \<or> i + 10 > length es)" by linarith
  next
    assume "\<not> (i < 10 \<or> i + 10 > length es)"
    then show "\<forall>j \<in> set [int i - 10 .. int i + 10 - 1]. 0 \<le> j \<and> j < int (length es)"
      by auto
  qed
  then show ?thesis by (simp add: logNeighbours_iff)
qed

lemma slowScan_first:
  assumes "k < length rest" and "Key (rest ! k) = library" and "\<forall>j<k. Key (rest ! j) \<noteq> library"
  shows "slowScan es library i rest =
     (if i + k < 10 \<or> i + k + 10 > length es then Inl PanicIndex else Inr (Value (rest ! k), True))"
  using assms
proof (induction rest arbitrary: i k)
  case Nil
  then show ?case by simp
next
  case (Cons entry rest)
  show ?case
  proof (cases k)
    case 0
    then show ?thesis using Cons.prems logNeighbours_window [of es i] by simp
  next
    case (Suc k')
    then have ne: "Key entry \<noteq> library" using Cons.prems(3) by auto
    have "slowScan es library (Suc i) rest =
       (if Suc i + k' < 10 \<or> Suc i + k' + 10 > length es then Inl PanicIndex
        else Inr (Value (rest ! k'), True))"
      using Cons.prems Suc by (intro Cons.IH) auto
    then show ?thesis using ne Suc by simp
  qed
qed

lemma slowScan_sound:
  "slowScan es library i rest = Inr (p, ok) \<Longrightarrow>
     (ok \<longrightarrow> (\<exists>e \<in> set rest. Key e = library \<and> p = Value e))
     \<and> (\<not> ok \<longrightarrow> (\<forall>e \<in> set rest. Key e \<noteq> library))"
  by (induction rest arbitrary: i) (auto split: if_splits sum.splits)

lemma Lookup_noenv_or:
  assumes "Getenv_LD_LIBRARY_PATH w = [] \<or> searchPaths w (Split (Getenv_LD_LIBRARY_PATH w)) library = None"
  shows "Lookup nd w dc library =
     (case bisect nd (FileEntries dc) library 0 (length (FileEntries dc)) of
        Inl e \<Rightarrow> Inl e
      | Inr (Some v) \<Rightarrow> Inr (v, True)
      | Inr None \<Rightarrow> slowScan (FileEntries dc) library 0 (FileEntries dc))"
  using assms by (auto simp: Lookup_def Let_def)

text \<open>
  Claim C9. When the search of \<open>LD_LIBRARY_PATH\<close> finds nothing, the bisection ends
  without a match, and the linear scan has its first exact key match at index \<open>i\<close>,
  then \<open>Lookup\<close> panics with an index out of range if \<open>i < 10\<close> or \<open>i + 10\<close> exceeds the
  number of entries, and returns the value of entry \<open>i\<close> otherwise.
\<close>

theorem Lookup_slow_path:
  assumes "Getenv_LD_LIBRARY_PATH w = [] \<or> searchPaths w (Split (Getenv_LD_LIBRARY_PATH w)) library = None"
    and "bisect nd (FileEntries dc) library 0 (length (FileEntries dc)) = Inr None"
    and "first_match (FileEntries dc) library i"
  shows "Lookup nd w dc library =
     (if i < 10 \<or> i + 10 > length (FileEntries dc) then Inl PanicIndex
      else Inr (Value (FileEntries dc ! i), True))"
proof -
  have "slowScan (FileEntries dc) library 0 (FileEntries dc) =
     (if 0 + i < 10 \<or> 0 + i + 10 > length (FileEntries dc) then Inl PanicIndex
      else Inr (Value (FileEntries dc ! i), True))"
    using assms(3) by (intro slowScan_first) (auto simp: first_match_def list_all_iff)
  then show ?thesis
    using assms(1,2) by (simp add: Lookup_noenv_or)
qed

text \<open>
  The theorem at the 21-entry cache, where the first match is at index 10 and the value
  is returned, and at a three-entry cache, where the first match is at index 1 and
  \<open>Lookup\<close> panics.
\<close>

theorem Lookup_slow_path_witness:
  "bisect arabic_indic cache_desc ''libm.so.6'' 0 (length cache_desc) = Inr None
   \<and> first_match cache_desc ''libm.so.6'' 10
   \<and> Lookup arabic_indic world0 \<lparr>FileEntries = cache_desc\<rparr> ''libm.so.6''
        = Inr (Value (cache_desc ! 10), True)
   \<and> bisect arabic_indic cache_tiny ''libm.so.6'' 0 (length cache_tiny) = Inr None
   \<and> first_match cache_tiny ''libm.so.6'' 1
   \<and> Lookup arabic_indic world0 \<lparr>FileEntries = cache_tiny\<rparr> ''libm.so.6'' = Inl PanicIndex"
proof -
  have env: "Getenv_LD_LIBRARY_PATH world0 = []
      \<or> searchPaths world0 (Split (Getenv_LD_LIBRARY_PATH world0)) ''libm.so.6'' = None"
    by code_simp
  have b1: "bisect arabic_indic (FileEntries \<lparr>FileEntries = cache_desc\<rparr>) ''libm.so.6'' 0
      (length (FileEntries \<lparr>FileEntries = cache_desc\<rparr>)) = Inr None"
    by code_simp
  have f1: "first_match (FileEntries \<lparr>FileEntries = cache_desc\<rparr>) ''libm.so.6'' 10"
    by code_simp
  have b2: "bisect arabic_indic (FileEntries \<lparr>FileEntries = cache_tiny\<rparr>) ''libm.so.6'' 0
      (length (FileEntries \<lparr>FileEntries = cache_tiny\<rparr>)) = Inr None"
    by code_simp
  have f2: "first_match (FileEntries \<lparr>FileEntries = cache_tiny\<rparr>) ''libm.so.6'' 1"
    by code_simp
  have l1: "length cache_desc = 21" by (simp add: cache_desc_def)
  have l2: "length cache_tiny = 3" by (simp add: cache_tiny_def)
  have c1: "Lookup arabic_indic world0 \<lparr>FileEntries = cache_desc\<rparr> ''libm.so.6''
        = Inr (Value (cache_desc ! 10), True)"
    using Lookup_slow_path [OF env b1 f1] by (simp add: l1)
  have c2: "Lookup arabic_indic world0 \<lparr>FileEntries = cache_tiny\<rparr> ''libm.so.6'' = Inl PanicIndex"
    using Lookup_slow_path [OF env b2 f2] by (simp add: l2)
  from b1 f1 c1 b2 f2 c2 show ?thesis by simp
qed

lemma bisect_end: "\<not> lo < hi \<Longrightarrow> bisect nd es library lo hi = Inr None"
  by (subst bisect.simps) simp

lemma bisect_oob:
  "lo < hi \<Longrightarrow> \<not> (lo + hi) div 2 < length es \<Longrightarrow> bisect nd es library lo hi = Inl PanicIndex"
  by (subst bisect.simps) (simp add: Let_def)

lemma bisect_step:
  "lo < hi \<Longrightarrow> (lo + hi) div 2 < length es \<Longrightarrow>
   dl_cache_libcmp nd (Key (es ! ((lo + hi) div 2))) library = Inr x \<Longrightarrow>
   bisect nd es library lo hi =
     (if x = 0 then
        (if Is64 (es ! ((lo + hi) div 2)) then Inr (Some (Value (es ! ((lo + hi) div 2))))
         else bisect nd es library lo ((lo + hi) div 2))
      else if x = - 1 then bisect nd es library lo ((lo + hi) div 2)
      else bisect nd es library ((lo + hi) div 2 + 1) hi)"
  by (subst bisect.simps) (simp add: Let_def)

lemma bisect_sound:
  "bisect nd es library lo hi = Inr (Some v) \<Longrightarrow>
     \<exists>k < length es. Key (es ! k) = library \<and> Is64 (es ! k) \<and> v = Value (es ! k)"
proof (induction "hi - lo" arbitrary: lo hi rule: less_induct)
  case less
  let ?mid = "(lo + hi) div 2"
  have lh: "lo < hi" using less.prems bisect_end [of lo hi nd es library] by fastforce
  have ml: "?mid < length es" using less.prems lh bisect_oob [of lo hi es nd library] by fastforce
  obtain x where x: "dl_cache_libcmp nd (Key (es ! ?mid)) library = Inr x"
    using less.prems lh ml by (subst (asm) bisect.simps) (auto simp: Let_def split: sum.splits)
  note st = bisect_step [OF lh ml x]
  have d1: "?mid - lo < hi - lo" and d2: "hi - (?mid + 1) < hi - lo" using lh by auto
  consider (hit) "x = 0" "Is64 (es ! ?mid)"
    | (left) "bisect nd es library lo ?mid = Inr (Some v)"
    | (right) "bisect nd es library (?mid + 1) hi = Inr (Some v)"
    using less.prems st by (auto split: if_splits)
  then show ?case
  proof cases
    case hit
    then have "Key (es ! ?mid) = library" using x libcmp_zero_eq by blast
    moreover have "v = Value (es ! ?mid)" using less.prems st hit by simp
    ultimately show ?thesis using hit ml by blast
  next
    case left
    then show ?thesis using less.hyps [OF d1] by blast
  next
    case right
    then show ?thesis using less.hyps [OF d2] by blast
  qed
qed

lemma bisect_finds:
  assumes sorted: "sorted_desc nd es"
    and self: "dl_cache_libcmp nd name name = Inr 0"
    and wf: "wide_first es name"
  shows "hi \<le> length es \<Longrightarrow> \<exists>k. lo \<le> k \<and> k < hi \<and> Key (es ! k) = name \<and> Is64 (es ! k) \<Longrightarrow>
     \<exists>v. bisect nd es name lo hi = Inr (Some v)"
proof (induction "hi - lo" arbitrary: lo hi rule: less_induct)
  case less
  let ?mid = "(lo + hi) div 2"
  from less.prems(2) obtain k where k: "lo \<le> k" "k < hi" "Key (es ! k) = name" "Is64 (es ! k)"
    by blast
  have lh: "lo < hi" using k by simp
  have mh: "?mid < hi" "lo \<le> ?mid" using lh by auto
  have ml: "?mid < length es" using mh less.prems(1) by simp
  have kl: "k < length es" using k less.prems(1) by simp
  have d1: "?mid - lo < hi - lo" and d2: "hi - (?mid + 1) < hi - lo" using lh by auto
  have S: "\<And>i j. i < j \<Longrightarrow> j < length es \<Longrightarrow> cmp_ge nd (Key (es ! i)) (Key (es ! j))"
    using sorted by (simp add: sorted_desc_def sorted_wrt_iff_nth_less)
  have W: "\<And>i j. i < j \<Longrightarrow> j < length es \<Longrightarrow> Key (es ! i) = name \<Longrightarrow> Key (es ! j) = name
      \<Longrightarrow> Is64 (es ! j) \<Longrightarrow> Is64 (es ! i)"
    using wf by (simp add: wide_first_def sorted_wrt_iff_nth_less)
  show ?case
  proof (cases "Key (es ! ?mid) = name")
    case True
    then have x: "dl_cache_libcmp nd (Key (es ! ?mid)) name = Inr 0" using self by simp
    show ?thesis
    proof (cases "Is64 (es ! ?mid)")
      case True
      then show ?thesis using bisect_step [OF lh ml x] by simp
    next
      case False
      have "k < ?mid"
      proof (rule ccontr)
        assume "\<not> k < ?mid"
        then have "?mid < k" using False k(4) by (cases "k = ?mid") auto
        then show False using W [OF _ kl \<open>Key (es ! ?mid) = name\<close> k(3) k(4)] False by simp
      qed
      then have "\<exists>k'. lo \<le> k' \<and> k' < ?mid \<and> Key (es ! k') = name \<and> Is64 (es ! k')"
        using k by blast
      moreover have "?mid \<le> length es" using ml by simp
      ultimately have "\<exists>v. bisect nd es name lo ?mid = Inr (Some v)"
        by (rule less.hyps [OF d1, rotated])
      then show ?thesis using bisect_step [OF lh ml x] False by simp
    qed
  next
    case False
    then have km: "k \<noteq> ?mid" using k(3) by blast
    show ?thesis
    proof (cases "k < ?mid")
      case True
      then have "cmp_ge nd name (Key (es ! ?mid))" using S [OF True ml] k(3) by simp
      moreover have "dl_cache_libcmp nd name (Key (es ! ?mid)) \<noteq> Inr 0"
        using False libcmp_zero_eq by blast
      ultimately have "dl_cache_libcmp nd name (Key (es ! ?mid)) = Inr 1" by (simp add: cmp_ge_def)
      then have x: "dl_cache_libcmp nd (Key (es ! ?mid)) name = Inr (- 1)"
        using libcmp_swap by blast
      have "\<exists>k'. lo \<le> k' \<and> k' < ?mid \<and> Key (es ! k') = name \<and> Is64 (es ! k')"
        using k True by blast
      moreover have "?mid \<le> length es" using ml by simp
      ultimately have "\<exists>v. bisect nd es name lo ?mid = Inr (Some v)"
        by (rule less.hyps [OF d1, rotated])
      then show ?thesis using bisect_step [OF lh ml x] by simp
    next
      case nlt: False
      then have mk: "?mid < k" using km by simp
      then have "cmp_ge nd (Key (es ! ?mid)) name" using S [OF mk kl] k(3) by simp
      moreover have "dl_cache_libcmp nd (Key (es ! ?mid)) name \<noteq> Inr 0"
        using False libcmp_zero_eq by blast
      ultimately have x: "dl_cache_libcmp nd (Key (es ! ?mid)) name = Inr 1" by (simp add: cmp_ge_def)
      have "\<exists>k'. ?mid + 1 \<le> k' \<and> k' < hi \<and> Key (es ! k') = name \<and> Is64 (es ! k')"
        using k mk by (intro exI [of _ k]) simp
      then have "\<exists>v. bisect nd es name (?mid + 1) hi = Inr (Some v)"
        using less.prems(1) by (rule less.hyps [OF d2, rotated])
      then show ?thesis using bisect_step [OF lh ml x] by simp
    qed
  qed
qed

lemma Lookup_sound_noenv:
  assumes "Getenv_LD_LIBRARY_PATH w = []" and "Lookup nd w dc name = Inr (p, ok)"
  shows "(ok \<longrightarrow> (\<exists>e \<in> set (FileEntries dc). Key e = name \<and> p = Value e))
       \<and> (\<not> ok \<longrightarrow> (\<forall>e \<in> set (FileEntries dc). Key e \<noteq> name))"
proof (cases "bisect nd (FileEntries dc) name 0 (length (FileEntries dc))")
  case (Inl e)
  then show ?thesis using assms by (simp add: Lookup_noenv)
next
  case (Inr r)
  show ?thesis
  proof (cases r)
    case None
    then have "slowScan (FileEntries dc) name 0 (FileEntries dc) = Inr (p, ok)"
      using assms Inr by (simp add: Lookup_noenv)
    then show ?thesis by (rule slowScan_sound)
  next
    case (Some v)
    then have "p = v" "ok" using assms Inr by (simp_all add: Lookup_noenv)
    moreover obtain k where "k < length (FileEntries dc)" "Key (FileEntries dc ! k) = name"
      "v = Value (FileEntries dc ! k)"
      using bisect_sound Inr Some by blast
    ultimately show ?thesis by (metis nth_mem)
  qed
qed

text \<open>
  Claim C1, as amended. With no \<open>LD_LIBRARY_PATH\<close>: whenever \<open>Lookup\<close> returns, it
  reports found exactly when the key is in the cache, and then the path is the value of
  an entry with that key. If moreover the entries are in descending comparator order,
  the comparator is defined on the name, and the 64-bit entries of that key come before
  its other entries, then for every key that has a 64-bit entry \<open>Lookup\<close> returns found
  with the path of a 64-bit entry of that key.
\<close>

theorem Lookup_sorted:
  assumes "Getenv_LD_LIBRARY_PATH w = []"
  shows "(Lookup nd w dc name = Inr (p, ok) \<longrightarrow>
           (ok \<longrightarrow> (\<exists>e \<in> set (FileEntries dc). Key e = name \<and> p = Value e))
           \<and> (\<not> ok \<longrightarrow> (\<forall>e \<in> set (FileEntries dc). Key e \<noteq> name)))
       \<and> (sorted_desc nd (FileEntries dc) \<and> dl_cache_libcmp nd name name = Inr 0
            \<and> wide_first (FileEntries dc) name
            \<and> (\<exists>e \<in> set (FileEntries dc). Key e = name \<and> Is64 e)
          \<longrightarrow> (\<exists>e \<in> set (FileEntries dc). Key e = name \<and> Is64 e
                 \<and> Lookup nd w dc name = Inr (Value e, True)))"
proof (intro conjI impI)
  assume "Lookup nd w dc name = Inr (p, ok)" and "ok"
  then show "\<exists>e \<in> set (FileEntries dc). Key e = name \<and> p = Value e"
    using Lookup_sound_noenv [OF assms] by blast
next
  assume "Lookup nd w dc name = Inr (p, ok)" and "\<not> ok"
  then show "\<forall>e \<in> set (FileEntries dc). Key e \<noteq> name"
    using Lookup_sound_noenv [OF assms] by blast
next
  let ?es = "FileEntries dc"
  assume a: "sorted_desc nd ?es \<and> dl_cache_libcmp nd name name = Inr 0
            \<and> wide_first ?es name \<and> (\<exists>e \<in> set ?es. Key e = name \<and> Is64 e)"
  then obtain k where "k < length ?es" "Key (?es ! k) = name" "Is64 (?es ! k)"
    by (metis in_set_conv_nth)
  then have "\<exists>k. 0 \<le> k \<and> k < length ?es \<and> Key (?es ! k) = name \<and> Is64 (?es ! k)" by blast
  then obtain v where v: "bisect nd ?es name 0 (length ?es) = Inr (Some v)"
    using bisect_finds [of nd ?es name "length ?es" 0] a by blast
  then obtain j where j: "j < length ?es" "Key (?es ! j) = name" "Is64 (?es ! j)" "v = Value (?es ! j)"
    using bisect_sound by blast
  have "Lookup nd w dc name = Inr (v, True)" using v assms by (simp add: Lookup_noenv)
  then show "\<exists>e \<in> set ?es. Key e = name \<and> Is64 e \<and> Lookup nd w dc name = Inr (Value e, True)"
    using j by (metis nth_mem)
qed

text \<open>
  The theorem at a sorted cache of four entries in which the 64-bit entry of the key comes
  first.
\<close>

theorem Lookup_sorted_witness:
  "Getenv_LD_LIBRARY_PATH world0 = []
   \<and> sorted_desc arabic_indic cache_small \<and> wide_first cache_small ''libm.so.6''
   \<and> (\<exists>e \<in> set cache_small. Key e = ''libm.so.6'' \<and> Value e = ''/lib64/libm.so.6'')
   \<and> (\<exists>e \<in> set cache_small. Key e = ''libm.so.6'' \<and> Is64 e
        \<and> Lookup arabic_indic world0 \<lparr>FileEntries = cache_small\<rparr> ''libm.so.6'' = Inr (Value e, True))"
proof -
  let ?dc = "\<lparr>FileEntries = cache_small\<rparr>"
  have env: "Getenv_LD_LIBRARY_PATH world0 = []" by code_simp
  have r: "Lookup arabic_indic world0 ?dc ''libm.so.6'' = Inr (''/lib64/libm.so.6'', True)"
    by code_simp
  have h: "sorted_desc arabic_indic (FileEntries ?dc)
        \<and> dl_cache_libcmp arabic_indic ''libm.so.6'' ''libm.so.6'' = Inr 0
        \<and> wide_first (FileEntries ?dc) ''libm.so.6''
        \<and> (\<exists>e \<in> set (FileEntries ?dc). Key e = ''libm.so.6'' \<and> Is64 e)"
    by code_simp
  note T = Lookup_sorted [OF env, of arabic_indic ?dc "''libm.so.6''" "''/lib64/libm.so.6''" True]
  have c1: "\<exists>e \<in> set cache_small. Key e = ''libm.so.6'' \<and> Value e = ''/lib64/libm.so.6''"
    using T [THEN conjunct1, THEN mp, OF r] by auto
  have c2: "\<exists>e \<in> set cache_small. Key e = ''libm.so.6'' \<and> Is64 e
        \<and> Lookup arabic_indic world0 ?dc ''libm.so.6'' = Inr (Value e, True)"
    using T [THEN conjunct2, THEN mp, OF h] by simp
  from env h c1 c2 show ?thesis by simp
qed

lemma sorted_wrt_replicate: "P x x \<Longrightarrow> sorted_wrt P (replicate n x)"
  by (induction n) auto

lemma cmp_ge_samples:
  "cmp_ge arabic_indic ''libz.so.1'' ''libz.so.1''"
  "cmp_ge arabic_indic ''libz.so.1'' ''libm.so.6''"
  "cmp_ge arabic_indic ''libz.so.1'' ''libc.so.6''"
  "cmp_ge arabic_indic ''libm.so.6'' ''libm.so.6''"
  "cmp_ge arabic_indic ''libm.so.6'' ''libc.so.6''"
  "cmp_ge arabic_indic ''libc.so.6'' ''libc.so.6''"
  by code_simp+

lemma sorted_desc_cache_desc: "sorted_desc arabic_indic cache_desc"
  unfolding sorted_desc_def cache_desc_def
  by (simp add: sorted_wrt_append sorted_wrt_replicate cmp_ge_samples)

lemma sorted_asc_cache_asc: "sorted_asc arabic_indic cache_asc"
  unfolding sorted_asc_def cache_asc_def
  by (simp add: sorted_wrt_append sorted_wrt_replicate cmp_ge_samples)

lemma Lookup_cache_desc:
  "Lookup arabic_indic world0 \<lparr>FileEntries = cache_desc\<rparr> ''libm.so.6''
        = Inr (''/lib32/libm.so.6'', True)"
  by code_simp

lemma Lookup_cache_asc:
  "Lookup arabic_indic world0 \<lparr>FileEntries = cache_asc\<rparr> ''libm.so.6''
        = Inr (''/lib32/libm.so.6'', True)"
  by code_simp

text \<open>
  On a sorted cache, descending or ascending, in which the key has a 32-bit entry at
  index 10 and a 64-bit entry at index 11, \<open>Lookup\<close> returns the path of the 32-bit
  entry. On a cache of two 64-bit entries in ascending order, \<open>Lookup\<close> of the first key
  does not return. On a cache of one 64-bit entry whose key has a version number beyond
  the signed 32-bit range, \<open>Lookup\<close> of that key does not return.
\<close>

theorem Lookup_sorted_counterexample:
  "sorted_desc arabic_indic cache_desc
   \<and> Is64 (cache_desc ! 11) \<and> Key (cache_desc ! 11) = ''libm.so.6''
   \<and> Lookup arabic_indic world0 \<lparr>FileEntries = cache_desc\<rparr> ''libm.so.6''
        = Inr (''/lib32/libm.so.6'', True)
   \<and> sorted_asc arabic_indic cache_asc
   \<and> Is64 (cache_asc ! 11) \<and> Key (cache_asc ! 11) = ''libm.so.6''
   \<and> Lookup arabic_indic world0 \<lparr>FileEntries = cache_asc\<rparr> ''libm.so.6''
        = Inr (''/lib32/libm.so.6'', True)
   \<and> sorted_asc arabic_indic cache_pair_asc
   \<and> Is64 (cache_pair_asc ! 0) \<and> Key (cache_pair_asc ! 0) = ''libc.so.6''
   \<and> Lookup arabic_indic world0 \<lparr>FileEntries = cache_pair_asc\<rparr> ''libc.so.6'' = Inl PanicIndex
   \<and> sorted_desc arabic_indic cache_one \<and> sorted_asc arabic_indic cache_one
   \<and> Is64 (cache_one ! 0) \<and> Key (cache_one ! 0) = ''libz.so.2147483648''
   \<and> Lookup arabic_indic world0 \<lparr>FileEntries = cache_one\<rparr> ''libz.so.2147483648''
        = Inl (PanicNumError ErrRange)"
proof -
  have "Is64 (cache_desc ! 11) \<and> Key (cache_desc ! 11) = ''libm.so.6''" by code_simp
  moreover have "Is64 (cache_asc ! 11) \<and> Key (cache_asc ! 11) = ''libm.so.6''" by code_simp
  moreover have "sorted_asc arabic_indic cache_pair_asc
      \<and> Is64 (cache_pair_asc ! 0) \<and> Key (cache_pair_asc ! 0) = ''libc.so.6''
      \<and> Lookup arabic_indic world0 \<lparr>FileEntries = cache_pair_asc\<rparr> ''libc.so.6'' = Inl PanicIndex"
    by code_simp
  moreover have "sorted_desc arabic_indic cache_one \<and> sorted_asc arabic_indic cache_one
      \<and> Is64 (cache_one ! 0) \<and> Key (cache_one ! 0) = ''libz.so.2147483648''
      \<and> Lookup arabic_indic world0 \<lparr>FileEntries = cache_one\<rparr> ''libz.so.2147483648''
           = Inl (PanicNumError ErrRange)"
    by code_simp
  ultimately show ?thesis
    using sorted_desc_cache_desc sorted_asc_cache_asc Lookup_cache_desc Lookup_cache_asc
    by (intro conjI) simp_all
qed

section \<open>Properties of \<open>ReadDLCache\<close>\<close>

lemma readString_out_of_range:
  "length stringTable \<le> index \<Longrightarrow> readString stringTable index = Inl PanicSliceBounds"
  by (simp add: readString_def IndexByte_def)

lemma readString_panic: "readString stringTable index = Inl p \<Longrightarrow> p = PanicSliceBounds"
  by (auto simp: readString_def split: if_splits option.splits)

lemma convertEntries_panic: "convertEntries stringTable es = Inl p \<Longrightarrow> p = PanicSliceBounds"
  by (induction es) (auto split: sum.splits dest: readString_panic)

lemma convertEntries_out_of_range:
  "\<exists>e \<in> set es. length stringTable \<le> rawKey e \<or> length stringTable \<le> rawValue e \<Longrightarrow>
   convertEntries stringTable es = Inl PanicSliceBounds"
proof (induction es)
  case Nil
  then show ?case by simp
next
  case (Cons entry rest)
  show ?case
  proof (cases "length stringTable \<le> rawKey entry \<or> length stringTable \<le> rawValue entry")
    case True
    then show ?thesis
      by (auto simp: readString_out_of_range split: sum.splits dest: readString_panic)
  next
    case False
    then have "convertEntries stringTable rest = Inl PanicSliceBounds"
      using Cons by auto
    then show ?thesis by (auto split: sum.splits dest: readString_panic)
  qed
qed

text \<open>
  Claim C6 does not hold of the code; this is what the code does. When the header, the
  count and the records have been read, and some record has a key offset or a value
  offset at or beyond the length of the string table, \<open>ReadDLCache\<close> panics with a slice
  bounds error: it returns no error value.
\<close>

theorem ReadDLCache_offset_panics:
  assumes "read (length cacheMagic) r = (Inr magic, r1)" and "take 5 magic = ''ld.so''"
    and "read 4 r1 = (Inr n, r2)"
    and "readEntries (uint32 n) r2 = Inr (fileEntries, stringTable)"
    and "\<exists>e \<in> set fileEntries. length stringTable \<le> rawKey e \<or> length stringTable \<le> rawValue e"
  shows "ReadDLCache r = Inl PanicSliceBounds"
  using assms convertEntries_out_of_range [OF assms(5)]
  by (simp add: ReadDLCache_def Let_def)

text \<open>
  The theorem at \<open>cache_bad_offset\<close>.
\<close>

theorem ReadDLCache_offset_panics_witness:
  "ReadDLCache cache_bad_offset = Inl PanicSliceBounds"
proof -
  let ?tbl = "''libm.so.6'' @ [CHR 0x00]"
  let ?recs = "le32 0x303 @ le32 0 @ le32 10"
  have 1: "read (length cacheMagic) cache_bad_offset = (Inr cacheMagic, le32 1 @ ?recs @ ?tbl)"
    by code_simp
  have 2: "take 5 cacheMagic = ''ld.so''" by code_simp
  have 3: "read 4 (le32 1 @ ?recs @ ?tbl) = (Inr (le32 1), ?recs @ ?tbl)" by code_simp
  have 4: "readEntries (uint32 (le32 1)) (?recs @ ?tbl)
      = Inr ([\<lparr>rawFlags = 0x303, rawKey = 0, rawValue = 10\<rparr>], ?tbl)"
    by code_simp
  have 5: "\<exists>e \<in> set [\<lparr>rawFlags = 0x303, rawKey = 0, rawValue = 10\<rparr>].
      length ?tbl \<le> rawKey e \<or> length ?tbl \<le> rawValue e"
    by code_simp
  show ?thesis by (rule ReadDLCache_offset_panics [OF 1 2 3 4 5])
qed

lemma read_short: "length r < n \<Longrightarrow> read n r = (Inl (if r = [] then EOF else ErrUnexpectedEOF), [])"
  by (simp add: read_def)

lemma read_ok: "n \<le> length r \<Longrightarrow> read n r = (Inr (take n r), drop n r)"
  by (simp add: read_def)

lemma readEntries_short:
  "length r < 12 * n \<Longrightarrow>
   readEntries n r = Inl (if length r mod 12 = 0 then EOF else ErrUnexpectedEOF)"
proof (induction n arbitrary: r)
  case 0
  then show ?case by simp
next
  case (Suc n)
  show ?case
  proof (cases "length r < 12")
    case True
    then show ?thesis by (auto simp: read_short)
  next
    case False
    then have "length (drop 12 r) < 12 * n" using Suc.prems by simp
    then have "readEntries n (drop 12 r)
        = Inl (if length (drop 12 r) mod 12 = 0 then EOF else ErrUnexpectedEOF)"
      by (rule Suc.IH)
    moreover have "length (drop 12 r) mod 12 = length r mod 12"
      using False by (simp add: le_mod_geq)
    ultimately show ?thesis using False by (simp add: read_ok)
  qed
qed

text \<open>
  Claim C7 does not hold of the code; this is what the code does. A stream that ends
  inside the header makes \<open>ReadDLCache\<close> return the error about the magic, not an
  end-of-stream error. A stream that ends inside the entry count, or inside one of
  the records that the count announces, makes it return \<open>io.EOF\<close> (the stream ended
  exactly where the read began) or \<open>io.ErrUnexpectedEOF\<close>.
\<close>

theorem ReadDLCache_truncated:
  "(length r < length cacheMagic \<longrightarrow> ReadDLCache r = Inr (Inl MagicError))
   \<and> (length cacheMagic \<le> length r \<and> take 5 r = ''ld.so'' \<and> length r < length cacheMagic + 4
        \<longrightarrow> ReadDLCache r
              = Inr (Inl (if length r = length cacheMagic then EOF else ErrUnexpectedEOF)))
   \<and> (length cacheMagic + 4 \<le> length r \<and> take 5 r = ''ld.so''
        \<and> length r < length cacheMagic + 4 + 12 * uint32 (take 4 (drop (length cacheMagic) r))
        \<longrightarrow> ReadDLCache r
              = Inr (Inl (if (length r - (length cacheMagic + 4)) mod 12 = 0 then EOF
                          else ErrUnexpectedEOF)))"
proof (intro conjI impI)
  assume "length r < length cacheMagic"
  moreover have "take 5 (replicate (length cacheMagic) (CHR 0x00)) \<noteq> ''ld.so''"
    by (simp add: cacheMagic_def numeral_eq_Suc)
  ultimately show "ReadDLCache r = Inr (Inl MagicError)"
    by (simp add: ReadDLCache_def read_short del: take_replicate)
next
  assume a: "length cacheMagic \<le> length r \<and> take 5 r = ''ld.so'' \<and> length r < length cacheMagic + 4"
  have m: "length cacheMagic = 12" by (simp add: cacheMagic_def)
  have "take 5 (take 12 r) = ''ld.so''" using a by simp
  moreover have "read 4 (drop 12 r) = (Inl (if length r = 12 then EOF else ErrUnexpectedEOF), [])"
    using a m by (auto simp: read_short)
  ultimately show "ReadDLCache r
      = Inr (Inl (if length r = length cacheMagic then EOF else ErrUnexpectedEOF))"
    using a m by (simp add: ReadDLCache_def read_ok)
next
  assume a: "length cacheMagic + 4 \<le> length r \<and> take 5 r = ''ld.so''
        \<and> length r < length cacheMagic + 4 + 12 * uint32 (take 4 (drop (length cacheMagic) r))"
  have m: "length cacheMagic = 12" by (simp add: cacheMagic_def)
  let ?n = "uint32 (take 4 (drop 12 r))"
  have a1: "16 \<le> length r" and a2: "take 5 r = ''ld.so''" and a3: "length r < 16 + 12 * ?n"
    using a m by auto
  have r1: "read 12 r = (Inr (take 12 r), drop 12 r)"
    using a1 by (intro read_ok) simp
  have mg: "take 5 (take 12 r) = ''ld.so''" using a2 by simp
  have "4 \<le> length (drop 12 r)" using a1 by simp
  then have r2: "read 4 (drop 12 r) = (Inr (take 4 (drop 12 r)), drop 4 (drop 12 r))"
    by (rule read_ok)
  have "length (drop 4 (drop 12 r)) < 12 * ?n" using a1 a3 by simp
  then have r3: "readEntries ?n (drop 4 (drop 12 r))
      = Inl (if length (drop 4 (drop 12 r)) mod 12 = 0 then EOF else ErrUnexpectedEOF)"
    by (rule readEntries_short)
  have l: "length (drop 4 (drop 12 r)) = length r - (12 + 4)" by simp
  show "ReadDLCache r
      = Inr (Inl (if (length r - (length cacheMagic + 4)) mod 12 = 0 then EOF else ErrUnexpectedEOF))"
    unfolding ReadDLCache_def m r1 using mg r2 r3 l by (simp add: Let_def)
qed

text \<open>
  The theorem at \<open>cache_short_header\<close>, at a stream that ends inside the entry count, and
  at a stream that ends inside its only record.
\<close>

theorem ReadDLCache_truncated_witness:
  "ReadDLCache cache_short_header = Inr (Inl MagicError)
   \<and> ReadDLCache (cacheMagic @ [CHR 0x01, CHR 0x00]) = Inr (Inl ErrUnexpectedEOF)
   \<and> ReadDLCache (cacheMagic @ le32 1 @ le32 0x303 @ le32 0) = Inr (Inl ErrUnexpectedEOF)"
proof -
  let ?r2 = "cacheMagic @ [CHR 0x01, CHR 0x00]"
  let ?r3 = "cacheMagic @ le32 1 @ le32 0x303 @ le32 0"
  have 1: "length cache_short_header < length cacheMagic" by code_simp
  have 2: "length cacheMagic \<le> length ?r2 \<and> take 5 ?r2 = ''ld.so'' \<and> length ?r2 < length cacheMagic + 4"
    by code_simp
  have 3: "length cacheMagic + 4 \<le> length ?r3 \<and> take 5 ?r3 = ''ld.so''
        \<and> length ?r3 < length cacheMagic + 4 + 12 * uint32 (take 4 (drop (length cacheMagic) ?r3))"
    by code_simp
  have c1: "ReadDLCache cache_short_header = Inr (Inl MagicError)"
    by (rule ReadDLCache_truncated [of cache_short_header, THEN conjunct1, THEN mp, OF 1])
  have "ReadDLCache ?r2 = Inr (Inl (if length ?r2 = length cacheMagic then EOF else ErrUnexpectedEOF))"
    by (rule ReadDLCache_truncated [of ?r2, THEN conjunct2, THEN conjunct1, THEN mp, OF 2])
  then have c2: "ReadDLCache ?r2 = Inr (Inl ErrUnexpectedEOF)" by simp
  have "ReadDLCache ?r3 = Inr (Inl (if (length ?r3 - (length cacheMagic + 4)) mod 12 = 0 then EOF
                          else ErrUnexpectedEOF))"
    by (rule ReadDLCache_truncated [of ?r3, THEN conjunct2, THEN conjunct2, THEN mp, OF 3])
  then have c3: "ReadDLCache ?r3 = Inr (Inl ErrUnexpectedEOF)" by (simp add: cacheMagic_def le32_def)
  from c1 c2 c3 show ?thesis by simp
qed

section \<open>Properties of \<open>recursiveImports\<close>\<close>

lemma readImports_graph:
  "readImports nd (graph_world g) dc name =
     (case map_of g name of
        Some deps \<Rightarrow> Inr (Inr deps)
      | None \<Rightarrow>
         (case Lookup nd (graph_world g) dc name of
            Inl p \<Rightarrow> Inl p
          | Inr (filename1, ok) \<Rightarrow>
             if ok then
               (case map_of g filename1 of
                  Some deps \<Rightarrow> Inr (Inr deps)
                | None \<Rightarrow> Inr (Inl ErrNotExist))
             else Inr (Inl ErrNotExist)))"
  by (auto simp: readImports_def graph_world_def split: option.splits sum.splits)

lemma run_broken:
  "run 3 arabic_indic (graph_world broken) \<lparr>FileEntries = []\<rparr> ''A''
     = (\<lparr>seen = {''A'', ''B'', ''C''}, imports' = {''B'', ''C''}, reads = [''A'', ''B'', ''C'']\<rparr>,
        Failed ErrNotExist)"
  by code_simp

lemma run_cycle:
  "run (Suc (Suc (Suc k))) nd (graph_world cycle) dc ''A''
     = (\<lparr>seen = {''A'', ''B''}, imports' = {''A'', ''B''}, reads = [''A'', ''B'']\<rparr>, Done)"
  by (simp add: run_def readImports_graph cycle_def Let_def insert_commute)

lemma run_diamond:
  "run (Suc (Suc (Suc k))) nd (graph_world diamond) dc ''A''
     = (\<lparr>seen = {''A'', ''B'', ''C'', ''D''}, imports' = {''B'', ''C'', ''D''},
         reads = [''A'', ''B'', ''D'', ''C'']\<rparr>, Done)"
  by (auto simp add: run_def readImports_graph diamond_def Let_def)

lemma visit_distinct:
  "set (reads st) \<subseteq> seen st \<Longrightarrow> distinct (reads st) \<Longrightarrow>
     set (reads (fst (visit n nd w dc st filename))) \<subseteq> seen (fst (visit n nd w dc st filename))
     \<and> distinct (reads (fst (visit n nd w dc st filename)))"
  and visitDeps_distinct:
  "set (reads st) \<subseteq> seen st \<Longrightarrow> distinct (reads st) \<Longrightarrow>
     set (reads (fst (visitDeps n nd w dc st deps))) \<subseteq> seen (fst (visitDeps n nd w dc st deps))
     \<and> distinct (reads (fst (visitDeps n nd w dc st deps)))"
proof (induction n nd w dc st filename and n nd w dc st deps rule: visit_visitDeps.induct)
  case (1 nd w dc st filename)
  then show ?case by simp
next
  case (2 n nd w dc st filename)
  show ?case
  proof (cases "filename \<in> seen st")
    case True
    then show ?thesis using "2.prems" by simp
  next
    case False
    let ?st1 = "st\<lparr>seen := insert filename (seen st), reads := reads st @ [filename]\<rparr>"
    have p: "set (reads ?st1) \<subseteq> seen ?st1" "distinct (reads ?st1)"
      using "2.prems" False by auto
    show ?thesis
    proof (cases "readImports nd w dc filename")
      case (Inl p')
      then show ?thesis using False p by (simp add: Let_def)
    next
      case (Inr r)
      show ?thesis
      proof (cases r)
        case (Inl err)
        then show ?thesis using False p Inr by (simp add: Let_def)
      next
        case (Inr importedLibs)
        then show ?thesis
          using "2.IH" [OF False refl \<open>readImports nd w dc filename = Inr r\<close> Inr p] False
            \<open>readImports nd w dc filename = Inr r\<close>
          by (simp add: Let_def)
      qed
    qed
  qed
next
  case (3 n nd w dc st)
  then show ?case by simp
next
  case (4 n nd w dc st dep deps)
  let ?st1 = "st\<lparr>imports' := insert dep (imports' st)\<rparr>"
  have p: "set (reads ?st1) \<subseteq> seen ?st1" "distinct (reads ?st1)"
    using "4.prems" by auto
  obtain st2 s where v: "visit n nd w dc ?st1 dep = (st2, s)" by (cases "visit n nd w dc ?st1 dep")
  have q: "set (reads st2) \<subseteq> seen st2 \<and> distinct (reads st2)"
    using "4.IH"(1) [OF refl p] v by simp
  show ?case
  proof (cases s)
    case Done
    then show ?thesis
      using "4.IH"(2) [OF refl v [symmetric] Done] q v by (simp add: Let_def)
  qed (use q v in \<open>simp_all add: Let_def\<close>)
qed

lemma run_distinct: "distinct (reads (fst (run fuel nd w dc start)))"
  using visit_distinct [of "\<lparr>seen = {}, imports' = {}, reads = []\<rparr>" fuel nd w dc start]
  by (simp add: run_def)

text \<open>
  Claim C3. In every run of the traversal, whatever the graph and however the run ends,
  no file is handed to \<open>readImports\<close> twice. On the diamond A\<rightarrow>B, A\<rightarrow>C, B\<rightarrow>D, C\<rightarrow>D
  started from A, for every depth bound of at least three, \<open>readImports\<close> runs exactly
  once for D and \<open>recursiveImports\<close> returns the set \<open>{B, C, D}\<close> without an error.
\<close>

theorem recursiveImports_once:
  "distinct (reads (fst (run fuel nd w dc start)))
   \<and> count_list (reads (fst (run (Suc (Suc (Suc k))) nd (graph_world diamond) dc ''A''))) ''D'' = 1
   \<and> recursiveImports (Suc (Suc (Suc k))) nd (graph_world diamond) dc ''A''
       = Some (Inr ({''B'', ''C'', ''D''}, None))"
proof (intro conjI)
  show "distinct (reads (fst (run fuel nd w dc start)))"
    by (rule run_distinct)
next
  have r: "run (Suc (Suc (Suc k))) nd (graph_world diamond) dc ''A''
     = (\<lparr>seen = {''A'', ''B'', ''C'', ''D''}, imports' = {''B'', ''C'', ''D''},
         reads = [''A'', ''B'', ''D'', ''C'']\<rparr>, Done)"
    by (rule run_diamond)
  show "count_list (reads (fst (run (Suc (Suc (Suc k))) nd (graph_world diamond) dc ''A''))) ''D'' = 1"
    by (simp add: r)
  show "recursiveImports (Suc (Suc (Suc k))) nd (graph_world diamond) dc ''A''
       = Some (Inr ({''B'', ''C'', ''D''}, None))"
    by (simp add: recursiveImports_def r)
qed

text \<open>
  Claim C2, as amended. On the two-file cycle in which A imports B and B imports A,
  \<open>recursiveImports\<close> started from A returns for every depth bound of at least three,
  without an error, and the set it returns is \<open>{A, B}\<close>: the start file is in it
  because B imports it.
\<close>

theorem recursiveImports_cycle:
  "recursiveImports (Suc (Suc (Suc k))) nd (graph_world cycle) dc ''A''
     = Some (Inr ({''A'', ''B''}, None))"
proof -
  have "run (Suc (Suc (Suc k))) nd (graph_world cycle) dc ''A''
     = (\<lparr>seen = {''A'', ''B''}, imports' = {''A'', ''B''}, reads = [''A'', ''B'']\<rparr>, Done)"
    by (rule run_cycle)
  then show ?thesis by (simp add: recursiveImports_def)
qed

text \<open>
  The set returned for the cycle is \<open>{A, B}\<close> and not \<open>{B}\<close>.
\<close>

theorem recursiveImports_cycle_counterexample:
  "recursiveImports 3 arabic_indic (graph_world cycle) \<lparr>FileEntries = []\<rparr> ''A''
     = Some (Inr ({''A'', ''B''}, None))
   \<and> recursiveImports 3 arabic_indic (graph_world cycle) \<lparr>FileEntries = []\<rparr> ''A''
     \<noteq> Some (Inr ({''B''}, None))"
  by code_simp

lemma trace_ok_append:
  "list_all (okread nd w dc) new1 \<Longrightarrow> trace_ok nd w dc new2 s \<Longrightarrow> trace_ok nd w dc (new1 @ new2) s"
  by (cases s) (auto simp: trace_ok_def butlast_append)

lemma visit_trace:
  "\<exists>new. reads (fst (visit n nd w dc st filename)) = reads st @ new
          \<and> trace_ok nd w dc new (snd (visit n nd w dc st filename))"
  and visitDeps_trace:
  "\<exists>new. reads (fst (visitDeps n nd w dc st deps)) = reads st @ new
          \<and> trace_ok nd w dc new (snd (visitDeps n nd w dc st deps))"
proof (induction n nd w dc st filename and n nd w dc st deps rule: visit_visitDeps.induct)
  case (1 nd w dc st filename)
  show ?case by (simp add: trace_ok_def)
next
  case (2 n nd w dc st filename)
  show ?case
  proof (cases "filename \<in> seen st")
    case True
    then show ?thesis by (simp add: trace_ok_def)
  next
    case False
    let ?st1 = "st\<lparr>seen := insert filename (seen st), reads := reads st @ [filename]\<rparr>"
    show ?thesis
    proof (cases "readImports nd w dc filename")
      case (Inl p')
      then have "trace_ok nd w dc [filename] (Panicked p')" by (simp add: trace_ok_def)
      then show ?thesis using False Inl by (simp add: Let_def)
    next
      case (Inr r)
      show ?thesis
      proof (cases r)
        case (Inl err)
        then have "trace_ok nd w dc [filename] (Failed err)"
          using Inr by (simp add: trace_ok_def)
        then show ?thesis using False Inr Inl by (simp add: Let_def)
      next
        case r: (Inr importedLibs)
        have ok: "list_all (okread nd w dc) [filename]" using Inr r by (simp add: okread_def)
        obtain new where new: "reads (fst (visitDeps n nd w dc ?st1 importedLibs)) = reads ?st1 @ new"
          "trace_ok nd w dc new (snd (visitDeps n nd w dc ?st1 importedLibs))"
          using "2.IH" [OF False refl Inr r] by blast
        have "trace_ok nd w dc ([filename] @ new) (snd (visitDeps n nd w dc ?st1 importedLibs))"
          using ok new(2) by (rule trace_ok_append)
        then show ?thesis using False Inr r new(1) by (simp add: Let_def)
      qed
    qed
  qed
next
  case (3 n nd w dc st)
  show ?case by (simp add: trace_ok_def)
next
  case (4 n nd w dc st dep deps)
  let ?st1 = "st\<lparr>imports' := insert dep (imports' st)\<rparr>"
  obtain st2 s where v: "visit n nd w dc ?st1 dep = (st2, s)" by (cases "visit n nd w dc ?st1 dep")
  obtain new1 where new1: "reads st2 = reads st @ new1" "trace_ok nd w dc new1 s"
    using "4.IH"(1) [OF refl] v by auto
  show ?case
  proof (cases s)
    case Done
    obtain new2 where new2: "reads (fst (visitDeps n nd w dc st2 deps)) = reads st2 @ new2"
      "trace_ok nd w dc new2 (snd (visitDeps n nd w dc st2 deps))"
      using "4.IH"(2) [OF refl v [symmetric] Done] by blast
    have "list_all (okread nd w dc) new1" using new1(2) Done by (simp add: trace_ok_def)
    then have "trace_ok nd w dc (new1 @ new2) (snd (visitDeps n nd w dc st2 deps))"
      using new2(2) by (rule trace_ok_append)
    then show ?thesis using v Done new1(1) new2(1) by (simp add: Let_def)
  qed (use v new1 in \<open>simp_all add: Let_def\<close>)
qed

lemma run_trace:
  "trace_ok nd w dc (reads (fst (run fuel nd w dc start))) (snd (run fuel nd w dc start))"
  using visit_trace [of fuel nd w dc "\<lparr>seen = {}, imports' = {}, reads = []\<rparr>" start]
  by (simp add: run_def)

text \<open>
  Claim C8, as amended. If \<open>readImports\<close> returns an error for any file that the
  traversal reads, the traversal stops there: that file is the last one read, and
  \<open>recursiveImports\<close> returns that error, together with the set of the names recorded up
  to that point. If \<open>recursiveImports\<close> returns no error, every read of the traversal
  succeeded.
\<close>

theorem recursiveImports_error:
  "((\<exists>g \<in> set (reads (fst (run fuel nd w dc start))). \<exists>err. readImports nd w dc g = Inr (Inl err))
      \<longrightarrow> (\<exists>err. readImports nd w dc (last (reads (fst (run fuel nd w dc start)))) = Inr (Inl err)
            \<and> recursiveImports fuel nd w dc start
                = Some (Inr (imports' (fst (run fuel nd w dc start)), Some err))))
   \<and> ((\<exists>imps. recursiveImports fuel nd w dc start = Some (Inr (imps, None)))
      \<longrightarrow> list_all (okread nd w dc) (reads (fst (run fuel nd w dc start))))"
proof (intro conjI impI)
  obtain st s where r: "run fuel nd w dc start = (st, s)" by (cases "run fuel nd w dc start")
  have t: "trace_ok nd w dc (reads st) s" using run_trace [of nd w dc fuel start] r by simp
  assume "\<exists>g \<in> set (reads (fst (run fuel nd w dc start))). \<exists>err. readImports nd w dc g = Inr (Inl err)"
  then obtain g err where g: "g \<in> set (reads st)" "readImports nd w dc g = Inr (Inl err)"
    using r by auto
  then have nok: "\<not> okread nd w dc g" by (simp add: okread_def)
  have ne: "reads st \<noteq> []" using g(1) by auto
  have gl: "g \<in> set (butlast (reads st)) \<or> g = last (reads st)"
    using g(1) ne by (metis append_butlast_last_id in_set_conv_decomp insert_iff list.set(2) set_append Un_iff)
  obtain err' where "s = Failed err'"
  proof (cases s)
    case Done
    then show ?thesis using t g(1) nok by (auto simp: trace_ok_def list_all_iff)
  next
    case (Panicked p)
    then show ?thesis using t gl g(2) nok by (auto simp: trace_ok_def list_all_iff)
  next
    case OutOfFuel
    then show ?thesis using t g(1) nok by (auto simp: trace_ok_def list_all_iff)
  qed
  then show "\<exists>err. readImports nd w dc (last (reads (fst (run fuel nd w dc start)))) = Inr (Inl err)
            \<and> recursiveImports fuel nd w dc start
                = Some (Inr (imports' (fst (run fuel nd w dc start)), Some err))"
    using t r by (auto simp: trace_ok_def recursiveImports_def)
next
  obtain st s where r: "run fuel nd w dc start = (st, s)" by (cases "run fuel nd w dc start")
  have t: "trace_ok nd w dc (reads st) s" using run_trace [of nd w dc fuel start] r by simp
  assume "\<exists>imps. recursiveImports fuel nd w dc start = Some (Inr (imps, None))"
  then have "s = Done" using r by (cases s) (auto simp: recursiveImports_def)
  then show "list_all (okread nd w dc) (reads (fst (run fuel nd w dc start)))"
    using t r by (simp add: trace_ok_def)
qed

text \<open>
  The theorem at \<open>broken\<close>, where the read of C fails, and at \<open>diamond\<close>, where no read
  fails.
\<close>

theorem recursiveImports_error_witness:
  "(\<exists>g \<in> set (reads (fst (run 3 arabic_indic (graph_world broken) \<lparr>FileEntries = []\<rparr> ''A''))).
       \<exists>err. readImports arabic_indic (graph_world broken) \<lparr>FileEntries = []\<rparr> g = Inr (Inl err))
   \<and> (\<exists>err. readImports arabic_indic (graph_world broken) \<lparr>FileEntries = []\<rparr> ''C'' = Inr (Inl err)
        \<and> recursiveImports 3 arabic_indic (graph_world broken) \<lparr>FileEntries = []\<rparr> ''A''
            = Some (Inr ({''B'', ''C''}, Some err)))
   \<and> recursiveImports 3 arabic_indic (graph_world diamond) \<lparr>FileEntries = []\<rparr> ''A''
        = Some (Inr ({''B'', ''C'', ''D''}, None))
   \<and> list_all (okread arabic_indic (graph_world diamond) \<lparr>FileEntries = []\<rparr>) [''A'', ''B'', ''D'', ''C'']"
proof -
  let ?w = "graph_world broken" and ?dc = "\<lparr>FileEntries = []\<rparr>"
  have f: "readImports arabic_indic ?w ?dc ''C'' = Inr (Inl ErrNotExist)" by code_simp
  have h: "\<exists>g \<in> set (reads (fst (run 3 arabic_indic ?w ?dc ''A''))).
       \<exists>err. readImports arabic_indic ?w ?dc g = Inr (Inl err)"
    using f by (simp add: run_broken)
  have "\<exists>err. readImports arabic_indic ?w ?dc (last (reads (fst (run 3 arabic_indic ?w ?dc ''A''))))
            = Inr (Inl err)
        \<and> recursiveImports 3 arabic_indic ?w ?dc ''A''
            = Some (Inr (imports' (fst (run 3 arabic_indic ?w ?dc ''A'')), Some err))"
    by (rule recursiveImports_error [of 3 arabic_indic ?w ?dc "''A''", THEN conjunct1, THEN mp, OF h])
  then have c1: "\<exists>err. readImports arabic_indic ?w ?dc ''C'' = Inr (Inl err)
        \<and> recursiveImports 3 arabic_indic ?w ?dc ''A'' = Some (Inr ({''B'', ''C''}, Some err))"
    by (simp add: run_broken)
  have d: "recursiveImports 3 arabic_indic (graph_world diamond) ?dc ''A''
        = Some (Inr ({''B'', ''C'', ''D''}, None))"
    by code_simp
  have "list_all (okread arabic_indic (graph_world diamond) ?dc)
      (reads (fst (run 3 arabic_indic (graph_world diamond) ?dc ''A'')))"
    using recursiveImports_error [of 3 arabic_indic "graph_world diamond" ?dc "''A''", THEN conjunct2] d
    by blast
  moreover have "reads (fst (run 3 arabic_indic (graph_world diamond) ?dc ''A'')) = [''A'', ''B'', ''D'', ''C'']"
    by code_simp
  ultimately have c2: "list_all (okread arabic_indic (graph_world diamond) ?dc) [''A'', ''B'', ''D'', ''C'']"
    by simp
  from h c1 d c2 show ?thesis by (intro conjI)
qed

text \<open>
  On \<open>broken\<close> the read of C fails, and \<open>recursiveImports\<close> returns the set
  \<open>{B, C}\<close> together with the error.
\<close>

theorem recursiveImports_error_counterexample:
  "readImports arabic_indic (graph_world broken) \<lparr>FileEntries = []\<rparr> ''C'' = Inr (Inl ErrNotExist)
   \<and> recursiveImports 3 arabic_indic (graph_world broken) \<lparr>FileEntries = []\<rparr> ''A''
       = Some (Inr ({''B'', ''C''}, Some ErrNotExist))"
  by code_simp

end
